theory Spec2Isabelle
  imports Complex_Main "HOL-Library.Log_Nat"
begin

section \<open>The scalar type \<open>Real\<close>\<close>

text \<open>
  The header declares \<open>Real\<close> as \<open>std::float128_t\<close> when the compiler offers it and
  as \<open>long double\<close> otherwise. The code distinguishes finite values from the
  infinities and from NaN (\<open>std::isfinite\<close>, the constant \<open>NaN\<close>), so the model keeps
  the four kinds of value apart. A finite value carries the real number it stands
  for. The sign of a zero is not modelled.
\<close>

datatype Real = Finite real | PInf | NInf | NaN

fun isfinite :: "Real \<Rightarrow> bool" where
  "isfinite (Finite x) = True"
| "isfinite PInf = False"
| "isfinite NInf = False"
| "isfinite NaN = False"

text \<open>\<open>std::abs\<close>.\<close>

fun fabs :: "Real \<Rightarrow> Real" where
  "fabs (Finite x) = Finite \<bar>x\<bar>"
| "fabs PInf = PInf"
| "fabs NInf = PInf"
| "fabs NaN = NaN"

text \<open>The comparisons \<open><\<close> and \<open>>=\<close>; both are false when an operand is NaN.\<close>

fun fless :: "Real \<Rightarrow> Real \<Rightarrow> bool" where
  "fless NaN b = False"
| "fless a NaN = False"
| "fless (Finite x) (Finite y) = (x < y)"
| "fless (Finite x) PInf = True"
| "fless (Finite x) NInf = False"
| "fless PInf b = False"
| "fless NInf (Finite y) = True"
| "fless NInf PInf = True"
| "fless NInf NInf = False"

fun fge :: "Real \<Rightarrow> Real \<Rightarrow> bool" where
  "fge NaN b = False"
| "fge a NaN = False"
| "fge (Finite x) (Finite y) = (y \<le> x)"
| "fge (Finite x) PInf = False"
| "fge (Finite x) NInf = True"
| "fge PInf b = True"
| "fge NInf (Finite y) = False"
| "fge NInf PInf = False"
| "fge NInf NInf = True"

fun fneg :: "Real \<Rightarrow> Real" where
  "fneg (Finite x) = Finite (- x)"
| "fneg PInf = NInf"
| "fneg NInf = PInf"
| "fneg NaN = NaN"

text \<open>The infinity of a given sign.\<close>

definition signed_inf :: "bool \<Rightarrow> Real" where
  "signed_inf positive = (if positive then PInf else NInf)"

text \<open>
  The format is the \<open>long double\<close> of x86-64: 64 significand bits and binary
  exponents from -16382 to 16383. \<open>std::float128_t\<close> has 113 significand bits and
  the same exponents: a number representable here is representable there, and a
  result of magnitude \<open>2\<^sup>1\<^sup>6\<^sup>3\<^sup>8\<^sup>4\<close> or more is an infinity in both. The number of
  significand bits enters the theorems only through \<open>significand_bits\<close>; apart from
  the one lemma that shows \<open>1 + 2\<^sup>-\<^sup>6\<^sup>5\<close> being rounded, every proof of this theory
  holds as it is written with 113 in its place.
\<close>

definition significand_bits :: nat where
  "significand_bits = 64"

definition max_exponent :: int where
  "max_exponent = 16383"

definition min_exponent :: int where
  "min_exponent = 1 - max_exponent"

definition pow2 :: "int \<Rightarrow> real" where
  "pow2 e = (if 0 \<le> e then 2 ^ nat e else 1 / 2 ^ nat (- e))"

text \<open>The binary exponent of a positive number: \<open>2\<^sup>e \<le> x < 2\<^sup>e\<^sup>+\<^sup>1\<close>.\<close>

definition floor_log2 :: "real \<Rightarrow> int" where
  "floor_log2 x = (if 1 \<le> x then bitlen \<lfloor>x\<rfloor> - 1 else - bitlen (\<lceil>1 / x\<rceil> - 1))"

text \<open>
  The nearest integer, the even one of two that are equally near; \<open>f\<close> is the floor
  of \<open>q\<close>.
\<close>

definition nearest_even :: "real \<Rightarrow> int \<Rightarrow> int" where
  "nearest_even q f =
     (if q - of_int f < 1 / 2 then f
      else if 1 / 2 < q - of_int f then f + 1
      else if even f then f else f + 1)"

definition round_half_even :: "real \<Rightarrow> int" where
  "round_half_even q = nearest_even q \<lfloor>q\<rfloor>"

text \<open>
  The exponent of the unit in the last place of the values with binary exponent \<open>e\<close>;
  below the smallest normal exponent the spacing stays that of the subnormal numbers.
\<close>

definition ulp_exponent :: "int \<Rightarrow> int" where
  "ulp_exponent e = max min_exponent e - int significand_bits + 1"

text \<open>
  The result of an arithmetic operation whose exact value is \<open>x\<close>, in three steps:
  the binary exponent \<open>e\<close> of \<open>x\<close>, the unit in the last place \<open>u\<close>, and the nearest
  multiple \<open>n * u\<close> of that unit, ties to the even \<open>n\<close>. The result is an infinity
  when the multiple lies beyond the largest finite value, that is when \<open>e\<close> exceeds
  the largest exponent or \<open>n\<close> is rounded up to the next power of two at the largest
  exponent.
\<close>

definition round_multiple :: "real \<Rightarrow> int \<Rightarrow> real \<Rightarrow> int \<Rightarrow> Real" where
  "round_multiple x e u n =
     (if max_exponent < e \<or> (e = max_exponent \<and> \<bar>n\<bar> = 2 ^ significand_bits)
      then signed_inf (0 < x)
      else Finite (of_int n * u))"

definition round_unit :: "real \<Rightarrow> int \<Rightarrow> real \<Rightarrow> Real" where
  "round_unit x e u = round_multiple x e u (round_half_even (x / u))"

definition round_exponent :: "real \<Rightarrow> int \<Rightarrow> Real" where
  "round_exponent x e = round_unit x e (pow2 (ulp_exponent e))"

definition round_real :: "real \<Rightarrow> Real" where
  "round_real x = (if x = 0 then Finite 0 else round_exponent x (floor_log2 \<bar>x\<bar>))"

text \<open>
  The operators \<open>+\<close>, \<open>-\<close>, \<open>*\<close> and \<open>/\<close>: the special cases of IEEE 754, and the
  exact result rounded when both operands are finite.
\<close>

fun fadd :: "Real \<Rightarrow> Real \<Rightarrow> Real" where
  "fadd NaN b = NaN"
| "fadd a NaN = NaN"
| "fadd (Finite x) (Finite y) = round_real (x + y)"
| "fadd (Finite x) PInf = PInf"
| "fadd (Finite x) NInf = NInf"
| "fadd PInf (Finite y) = PInf"
| "fadd PInf PInf = PInf"
| "fadd PInf NInf = NaN"
| "fadd NInf (Finite y) = NInf"
| "fadd NInf PInf = NaN"
| "fadd NInf NInf = NInf"

definition fsub :: "Real \<Rightarrow> Real \<Rightarrow> Real" where
  "fsub a b = fadd a (fneg b)"

fun fmul :: "Real \<Rightarrow> Real \<Rightarrow> Real" where
  "fmul NaN b = NaN"
| "fmul a NaN = NaN"
| "fmul (Finite x) (Finite y) = round_real (x * y)"
| "fmul (Finite x) PInf = (if x = 0 then NaN else signed_inf (0 < x))"
| "fmul (Finite x) NInf = (if x = 0 then NaN else signed_inf (x < 0))"
| "fmul PInf (Finite y) = (if y = 0 then NaN else signed_inf (0 < y))"
| "fmul NInf (Finite y) = (if y = 0 then NaN else signed_inf (y < 0))"
| "fmul PInf PInf = PInf"
| "fmul PInf NInf = NInf"
| "fmul NInf PInf = NInf"
| "fmul NInf NInf = PInf"

fun fdiv :: "Real \<Rightarrow> Real \<Rightarrow> Real" where
  "fdiv NaN b = NaN"
| "fdiv a NaN = NaN"
| "fdiv (Finite x) (Finite y) =
     (if y = 0 then (if x = 0 then NaN else signed_inf (0 < x)) else round_real (x / y))"
| "fdiv (Finite x) PInf = Finite 0"
| "fdiv (Finite x) NInf = Finite 0"
| "fdiv PInf (Finite y) = signed_inf (0 \<le> y)"
| "fdiv NInf (Finite y) = signed_inf (y < 0)"
| "fdiv PInf PInf = NaN"
| "fdiv PInf NInf = NaN"
| "fdiv NInf PInf = NaN"
| "fdiv NInf NInf = NaN"

text \<open>
  \<open>magnitude_zero\<close> is \<open>std::numeric_limits<float>::epsilon()\<close>, that is \<open>2\<^sup>-\<^sup>2\<^sup>3\<close>; it
  is the default of every \<open>epsilon\<close> parameter.
\<close>

definition magnitude_zero :: Real where
  "magnitude_zero = Finite (1 / 2 ^ 23)"

section \<open>The class \<open>Matrix\<close>\<close>

text \<open>
  The dimensions are \<open>uint8_t\<close> in the source. They are only compared and used as loop
  bounds of \<open>uint16_t\<close> counters, which cannot wrap below 256, so they are natural
  numbers here.
\<close>

datatype error = OutOfRange

record Matrix =
  n_rows :: nat
  n_columns :: nat
  cell :: "Real list list"
  dummy :: Real

text \<open>The default constructor \<open>Matrix()\<close>: the member initialisers alone.\<close>

definition Matrix_default :: Matrix where
  "Matrix_default = \<lparr>n_rows = 0, n_columns = 0, cell = [], dummy = NaN\<rparr>"

text \<open>The constructor \<open>Matrix(rows, columns)\<close>.\<close>

definition Matrix_new :: "nat \<Rightarrow> nat \<Rightarrow> Matrix" where
  "Matrix_new rows columns =
     (if rows < columns then Matrix_default
      else \<lparr>n_rows = rows, n_columns = columns,
            cell = replicate rows (replicate columns (Finite 0)), dummy = NaN\<rparr>)"

text \<open>
  The class invariant: \<open>cell\<close> is a grid of \<open>n_rows\<close> rows of \<open>n_columns\<close> entries. The
  accessors index \<open>cell\<close> directly after comparing with \<open>n_rows\<close> and \<open>n_columns\<close>;
  a theorem that depends on the shape of the grid assumes the invariant.
\<close>

definition wf_Matrix :: "Matrix \<Rightarrow> bool" where
  "wf_Matrix m \<longleftrightarrow>
     length (cell m) = n_rows m \<and> list_all (\<lambda>r. length r = n_columns m) (cell m)"

text \<open>
  The non-const \<open>operator()\<close> returns a reference. Reading through it is \<open>at_ref\<close>,
  assigning through it is \<open>assign\<close>: out of range the reference is to the member
  \<open>dummy\<close>.
\<close>

definition at_ref :: "Matrix \<Rightarrow> nat \<Rightarrow> nat \<Rightarrow> Real" where
  "at_ref m row column =
     (if row \<ge> n_rows m \<or> column \<ge> n_columns m then dummy m
      else cell m ! row ! column)"

definition assign :: "Matrix \<Rightarrow> nat \<Rightarrow> nat \<Rightarrow> Real \<Rightarrow> Matrix" where
  "assign m row column v =
     (if row \<ge> n_rows m \<or> column \<ge> n_columns m then m\<lparr>dummy := v\<rparr>
      else m\<lparr>cell := (cell m)[row := (cell m ! row)[column := v]]\<rparr>)"

text \<open>The const \<open>operator()\<close>.\<close>

definition at_const :: "Matrix \<Rightarrow> nat \<Rightarrow> nat \<Rightarrow> Real" where
  "at_const m row column =
     (if row \<ge> n_rows m \<or> column \<ge> n_columns m then NaN
      else cell m ! row ! column)"

text \<open>The loop \<open>for (i < n) if (!std::isfinite(data[i])) return;\<close> runs to its end.\<close>

definition all_finite :: "nat \<Rightarrow> Real list \<Rightarrow> bool" where
  "all_finite n data = list_all (\<lambda>i. isfinite (data ! i)) [0..<n]"

text \<open>
  \<open>set_row\<close>: \<open>cell[index] = data\<close> is an unchecked vector access, out of range when
  \<open>index\<close> is not below the number of rows.
\<close>

definition set_row :: "nat \<Rightarrow> Real list \<Rightarrow> Matrix \<Rightarrow> error + Matrix" where
  "set_row index data m =
     (if n_columns m = 0 \<or> length data \<noteq> n_columns m then Inr m
      else if \<not> all_finite (n_columns m) data then Inr m
      else if index < length (cell m) then Inr (m\<lparr>cell := (cell m)[index := data]\<rparr>)
      else Inl OutOfRange)"

text \<open>
  \<open>set_column\<close>: the last loop runs over the rows and stores \<open>cell[i][index] = data[i]\<close>,
  two unchecked vector accesses.
\<close>

fun set_column_loop :: "nat \<Rightarrow> Real list \<Rightarrow> nat list \<Rightarrow> Real list list \<Rightarrow> error + Real list list" where
  "set_column_loop index data [] cl = Inr cl"
| "set_column_loop index data (i # is) cl =
     (if i < length cl \<and> index < length (cl ! i) \<and> i < length data
      then set_column_loop index data is (cl[i := (cl ! i)[index := data ! i]])
      else Inl OutOfRange)"

definition set_column :: "nat \<Rightarrow> Real list \<Rightarrow> Matrix \<Rightarrow> error + Matrix" where
  "set_column index data m =
     (if n_rows m = 0 \<or> length data \<noteq> n_rows m then Inr m
      else if \<not> all_finite (n_rows m) data then Inr m
      else (case set_column_loop index data [0..<n_rows m] (cell m) of
              Inl e \<Rightarrow> Inl e
            | Inr cl \<Rightarrow> Inr (m\<lparr>cell := cl\<rparr>)))"

definition size_of :: "Matrix \<Rightarrow> nat \<times> nat" where
  "size_of m = (n_rows m, n_columns m)"

definition is_valid :: "Matrix \<Rightarrow> bool" where
  "is_valid m = (if n_rows m = 0 \<or> n_columns m = 0 \<or> n_rows m < n_columns m then False else True)"

definition is_diagonal_nonzero :: "Matrix \<Rightarrow> Real \<Rightarrow> bool" where
  "is_diagonal_nonzero m epsilon =
     (if \<not> is_valid m then False
      else list_all (\<lambda>i. \<not> fless (fabs (cell m ! i ! i)) epsilon) [0..<n_columns m])"

section \<open>\<open>Solve\<close>\<close>

text \<open>
  Vectors other than \<open>cell\<close> are indexed without a check in the source
  (\<open>operator[]\<close>): an index that is not below the length is \<open>Inl OutOfRange\<close> in the
  model. A \<open>return {}\<close> from inside a loop is \<open>Inr None\<close>. The locals \<open>n_rows\<close> and
  \<open>n_columns\<close> of \<open>Solve\<close> are \<open>nrows\<close> and \<open>ncolumns\<close> here, the fields of the record
  having taken their names. The counters in \<open>list_index\<close> are \<open>uint16_t\<close>; inside
  \<open>Solve\<close> they never exceed the number of rows, so they are natural numbers.
\<close>

text \<open>
  The non-zero entries of one column:
  \<open>if (std::abs(matrix(row, column)) >= epsilon) nze_list[column].push_back(row)\<close>.
\<close>

definition nze_column :: "Matrix \<Rightarrow> Real \<Rightarrow> nat \<Rightarrow> nat \<Rightarrow> nat list" where
  "nze_column matrix epsilon nrows column =
     filter (\<lambda>row. fge (fabs (at_ref matrix row column)) epsilon) [0..<nrows]"

text \<open>The loop over the columns; \<open>None\<close> when a column has only zeroes.\<close>

fun nze_columns :: "Matrix \<Rightarrow> Real \<Rightarrow> nat \<Rightarrow> nat list \<Rightarrow> nat list list option" where
  "nze_columns matrix epsilon nrows [] = Some []"
| "nze_columns matrix epsilon nrows (column # cs) =
     (if nze_column matrix epsilon nrows column = [] then None
      else map_option ((#) (nze_column matrix epsilon nrows column))
             (nze_columns matrix epsilon nrows cs))"

text \<open>\<open>for (i < n_rows) row_used[list_index[i]] = true;\<close>\<close>

fun set_row_used :: "nat list \<Rightarrow> nat list \<Rightarrow> bool list \<Rightarrow> error + bool list" where
  "set_row_used list_index [] row_used = Inr row_used"
| "set_row_used list_index (i # is) row_used =
     (if i < length list_index \<and> list_index ! i < length row_used
      then set_row_used list_index is (row_used[list_index ! i := True])
      else Inl OutOfRange)"

text \<open>\<open>for (i < n_rows) if (row_used[i]) ++n_used;\<close>\<close>

definition count_used :: "nat \<Rightarrow> bool list \<Rightarrow> nat" where
  "count_used nrows row_used = length (filter (\<lambda>i. row_used ! i) [0..<nrows])"

text \<open>
  The carry loop over \<open>i < n_columns - 1\<close>:
  \<open>if (list_index[i] >= nze_list[i].size()) { list_index[i] = 0; ++list_index[i + 1]; }\<close>
\<close>

fun carry :: "nat list list \<Rightarrow> nat list \<Rightarrow> nat list \<Rightarrow> error + nat list" where
  "carry nze_list [] list_index = Inr list_index"
| "carry nze_list (i # is) list_index =
     (if i < length list_index \<and> i < length nze_list
      then (if list_index ! i \<ge> length (nze_list ! i)
            then (if i + 1 < length list_index
                  then carry nze_list is (list_index[i := 0, i + 1 := list_index ! (i + 1) + 1])
                  else Inl OutOfRange)
            else carry nze_list is list_index)
      else Inl OutOfRange)"

text \<open>
  The \<open>else\<close> branch of the search loop: \<open>++list_index[0]\<close>, the carry loop, and the
  test of the last counter; \<open>Inr None\<close> is its \<open>return {}\<close>. With \<open>n_columns = 0\<close> the
  index \<open>n_columns - 1\<close> is \<open>-1\<close>, out of range.
\<close>

definition advance :: "nat \<Rightarrow> nat list list \<Rightarrow> nat list \<Rightarrow> error + nat list option" where
  "advance ncolumns nze_list list_index =
     (if length list_index = 0 then Inl OutOfRange
      else (case carry nze_list [0..<ncolumns - 1] (list_index[0 := list_index ! 0 + 1]) of
              Inl e \<Rightarrow> Inl e
            | Inr li \<Rightarrow>
                if ncolumns = 0 \<or> ncolumns - 1 \<ge> length li \<or> ncolumns - 1 \<ge> length nze_list
                then Inl OutOfRange
                else if li ! (ncolumns - 1) \<ge> length (nze_list ! (ncolumns - 1))
                then Inr None
                else Inr (Some li)))"

text \<open>
  The loop \<open>while (1)\<close>. \<open>Inr (Some list_index)\<close> is the \<open>break\<close> with the accepted
  counters, \<open>Inr None\<close> the \<open>return {}\<close>.
\<close>

function pivot_search :: "nat \<Rightarrow> nat \<Rightarrow> nat list list \<Rightarrow> nat list \<Rightarrow> error + nat list option" where
  "pivot_search nrows ncolumns nze_list list_index =
     (case set_row_used list_index [0..<nrows] (replicate nrows False) of
        Inl e \<Rightarrow> Inl e
      | Inr row_used \<Rightarrow>
          if count_used nrows row_used = ncolumns then Inr (Some list_index)
          else (case advance ncolumns nze_list list_index of
                  Inl e \<Rightarrow> Inl e
                | Inr None \<Rightarrow> Inr None
                | Inr (Some li) \<Rightarrow> pivot_search nrows ncolumns nze_list li))"
  by pat_completeness auto

text \<open>
  The construction of the square system. The inner loop is
  \<open>new_matrix(row, column) = matrix(index, column)\<close>; the outer one reads
  \<open>uint8_t const index = list_index[row]\<close> and stores \<open>new_equal[row] = equal[index]\<close>.
\<close>

fun copy_row :: "Matrix \<Rightarrow> nat \<Rightarrow> nat \<Rightarrow> nat list \<Rightarrow> Matrix \<Rightarrow> Matrix" where
  "copy_row matrix index row [] new_matrix = new_matrix"
| "copy_row matrix index row (column # cs) new_matrix =
     copy_row matrix index row cs (assign new_matrix row column (at_ref matrix index column))"

fun reduce_rows ::
  "Matrix \<Rightarrow> Real list \<Rightarrow> nat list \<Rightarrow> nat \<Rightarrow> nat list \<Rightarrow> Matrix \<times> Real list
     \<Rightarrow> error + Matrix \<times> Real list" where
  "reduce_rows matrix equal list_index ncolumns [] (new_matrix, new_equal) =
     Inr (new_matrix, new_equal)"
| "reduce_rows matrix equal list_index ncolumns (row # rs) (new_matrix, new_equal) =
     (if row < length list_index
      then (let index = list_index ! row mod 256 in
            if index < length equal \<and> row < length new_equal
            then reduce_rows matrix equal list_index ncolumns rs
                   (copy_row matrix index row [0..<ncolumns] new_matrix,
                    new_equal[row := equal ! index])
            else Inl OutOfRange)
      else Inl OutOfRange)"

text \<open>
  The whole branch taken when the diagonal has a zero: candidates, search, and the
  square system that replaces \<open>matrix\<close> and \<open>equal\<close>.
\<close>

definition pivot_branch ::
  "Matrix \<Rightarrow> Real list \<Rightarrow> Real \<Rightarrow> nat \<Rightarrow> nat \<Rightarrow> error + (Matrix \<times> Real list) option" where
  "pivot_branch matrix equal epsilon nrows ncolumns =
     (case nze_columns matrix epsilon nrows [0..<ncolumns] of
        None \<Rightarrow> Inr None
      | Some nze_list \<Rightarrow>
          (case pivot_search nrows ncolumns nze_list (replicate ncolumns 0) of
             Inl e \<Rightarrow> Inl e
           | Inr None \<Rightarrow> Inr None
           | Inr (Some list_index) \<Rightarrow>
               (case reduce_rows matrix equal list_index ncolumns [0..<ncolumns]
                       (Matrix_new ncolumns ncolumns, replicate ncolumns (Finite 0)) of
                  Inl e \<Rightarrow> Inl e
                | Inr st \<Rightarrow> Inr (Some st))))"

text \<open>The loop \<open>matrix(row, k) -= matrix(column, k) * scalar\<close> over \<open>k\<close>.\<close>

fun subtract_row :: "nat \<Rightarrow> nat \<Rightarrow> Real \<Rightarrow> nat list \<Rightarrow> Matrix \<Rightarrow> Matrix" where
  "subtract_row row column scalar [] matrix = matrix"
| "subtract_row row column scalar (k # ks) matrix =
     subtract_row row column scalar ks
       (assign matrix row k (fsub (at_ref matrix row k) (fmul (at_ref matrix column k) scalar)))"

text \<open>The quotient computed in the body of the elimination loops.\<close>

definition scalar_of :: "Matrix \<Rightarrow> nat \<Rightarrow> nat \<Rightarrow> Real" where
  "scalar_of matrix row column = fdiv (at_ref matrix row column) (at_ref matrix column column)"

text \<open>The body of the two elimination loops, for one \<open>column\<close> and one \<open>row\<close>.\<close>

definition eliminate_step ::
  "nat \<Rightarrow> nat \<Rightarrow> nat \<Rightarrow> Matrix \<times> Real list \<Rightarrow> error + (Matrix \<times> Real list) option" where
  "eliminate_step ncolumns column row st =
     (case st of (matrix, equal) \<Rightarrow>
        if row \<noteq> column
        then (if \<not> isfinite (scalar_of matrix row column) then Inr None
              else if row < length equal \<and> column < length equal
              then Inr (Some (subtract_row row column (scalar_of matrix row column) [0..<ncolumns] matrix,
                              equal[row := fsub (equal ! row)
                                             (fmul (equal ! column) (scalar_of matrix row column))]))
              else Inl OutOfRange)
        else Inr (Some st))"

text \<open>The two nested loops, as the list of their \<open>(column, row)\<close> pairs in order.\<close>

fun eliminate ::
  "nat \<Rightarrow> (nat \<times> nat) list \<Rightarrow> Matrix \<times> Real list \<Rightarrow> error + (Matrix \<times> Real list) option" where
  "eliminate ncolumns [] st = Inr (Some st)"
| "eliminate ncolumns ((column, row) # ps) st =
     (case eliminate_step ncolumns column row st of
        Inl e \<Rightarrow> Inl e
      | Inr None \<Rightarrow> Inr None
      | Inr (Some st') \<Rightarrow> eliminate ncolumns ps st')"

definition elimination_order :: "nat \<Rightarrow> (nat \<times> nat) list" where
  "elimination_order ncolumns = List.product [0..<ncolumns] [0..<ncolumns]"

text \<open>The quotient computed in the body of the rescaling loop.\<close>

definition value_of :: "Matrix \<Rightarrow> Real list \<Rightarrow> nat \<Rightarrow> Real" where
  "value_of matrix equal i = fdiv (equal ! i) (at_ref matrix i i)"

text \<open>The rescaling loop.\<close>

fun rescale :: "Matrix \<Rightarrow> Real list \<Rightarrow> nat list \<Rightarrow> Real list \<Rightarrow> error + Real list option" where
  "rescale matrix equal [] result = Inr (Some result)"
| "rescale matrix equal (i # is) result =
     (if i < length equal
      then (if \<not> isfinite (value_of matrix equal i) then Inr None
            else if i < length result
            then rescale matrix equal is (result[i := value_of matrix equal i])
            else Inl OutOfRange)
      else Inl OutOfRange)"

text \<open>The part of \<open>Solve\<close> after the comment "Solve as a square matrix".\<close>

definition gauss_jordan :: "nat \<Rightarrow> Matrix \<Rightarrow> Real list \<Rightarrow> error + Real list" where
  "gauss_jordan ncolumns matrix equal =
     (case eliminate ncolumns (elimination_order ncolumns) (matrix, equal) of
        Inl e \<Rightarrow> Inl e
      | Inr None \<Rightarrow> Inr []
      | Inr (Some (matrix', equal')) \<Rightarrow>
          (case rescale matrix' equal' [0..<ncolumns] (replicate ncolumns (Finite 0)) of
             Inl e \<Rightarrow> Inl e
           | Inr None \<Rightarrow> Inr []
           | Inr (Some result) \<Rightarrow> Inr result))"

text \<open>
  The part of \<open>Solve\<close> before that comment: the tests on the arguments and the
  branch for a diagonal with a zero. The result is the matrix and the right-hand side
  that the elimination works on, or \<open>Inr None\<close> for a \<open>return {}\<close>.
\<close>

definition square_system ::
  "Matrix \<Rightarrow> Real list \<Rightarrow> Real \<Rightarrow> error + (Matrix \<times> Real list) option" where
  "square_system matrix equal epsilon =
     (if \<not> is_valid matrix then Inr None
      else (case size_of matrix of (nrows, ncolumns) \<Rightarrow>
        if nrows \<noteq> length equal then Inr None
        else if \<not> is_diagonal_nonzero matrix epsilon
        then pivot_branch matrix equal epsilon nrows ncolumns
        else Inr (Some (matrix, equal))))"

definition Solve :: "Matrix \<Rightarrow> Real list \<Rightarrow> Real \<Rightarrow> error + Real list" where
  "Solve matrix equal epsilon =
     (case square_system matrix equal epsilon of
        Inl e \<Rightarrow> Inl e
      | Inr None \<Rightarrow> Inr []
      | Inr (Some (matrix', equal')) \<Rightarrow> gauss_jordan (n_columns matrix) matrix' equal')"

section \<open>\<open>ErrorEstimate\<close>\<close>

text \<open>
  The inner loop \<open>sum += matrix(i, j) * result[j]\<close> and the outer loop
  \<open>error += std::abs(sum - equal[i])\<close>. The indices of \<open>result\<close> and \<open>equal\<close> are
  below their lengths by the test on the sizes that precedes the loops.
\<close>

definition row_sum :: "Matrix \<Rightarrow> Real list \<Rightarrow> nat \<Rightarrow> nat \<Rightarrow> Real" where
  "row_sum matrix result ncolumns i =
     fold (\<lambda>j sum. fadd sum (fmul (at_const matrix i j) (result ! j))) [0..<ncolumns] (Finite 0)"

definition ErrorEstimate :: "Matrix \<Rightarrow> Real list \<Rightarrow> Real list \<Rightarrow> Real" where
  "ErrorEstimate matrix equal result =
     (if \<not> is_valid matrix then NaN
      else (case size_of matrix of (nrows, ncolumns) \<Rightarrow>
        if nrows \<noteq> length equal \<or> ncolumns \<noteq> length result then NaN
        else fold (\<lambda>i error. fadd error (fabs (fsub (row_sum matrix result ncolumns i) (equal ! i))))
               [0..<nrows] (Finite 0)))"

text \<open>The real number a finite \<open>Real\<close> stands for, to state results; zero otherwise.\<close>

fun real_of :: "Real \<Rightarrow> real" where
  "real_of (Finite x) = x"
| "real_of PInf = 0"
| "real_of NInf = 0"
| "real_of NaN = 0"

text \<open>
  A real number is representable when an operation whose exact result it is returns
  it unchanged.
\<close>

definition representable :: "real \<Rightarrow> bool" where
  "representable x \<longleftrightarrow> round_real x = Finite x"

text \<open>
  The exact quantities behind \<open>ErrorEstimate\<close>: the sum of the first \<open>k\<close> products of
  row \<open>i\<close>, the residual of row \<open>i\<close>, and the sum of the first \<open>k\<close> absolute residuals.
  \<open>no_rounding\<close> says that every product, every partial sum and every difference that
  the two loops compute is representable.
\<close>

definition row_dot :: "Matrix \<Rightarrow> Real list \<Rightarrow> nat \<Rightarrow> nat \<Rightarrow> real" where
  "row_dot m result i k = (\<Sum>j<k. real_of (at_const m i j) * real_of (result ! j))"

definition residual :: "Matrix \<Rightarrow> Real list \<Rightarrow> Real list \<Rightarrow> nat \<Rightarrow> real" where
  "residual m equal result i = row_dot m result i (n_columns m) - real_of (equal ! i)"

definition total_residual :: "Matrix \<Rightarrow> Real list \<Rightarrow> Real list \<Rightarrow> nat \<Rightarrow> real" where
  "total_residual m equal result k = (\<Sum>i<k. \<bar>residual m equal result i\<bar>)"

definition no_rounding :: "Matrix \<Rightarrow> Real list \<Rightarrow> Real list \<Rightarrow> bool" where
  "no_rounding m equal result \<longleftrightarrow>
     (\<forall>i<n_rows m.
        (\<forall>j<n_columns m.
           representable (real_of (at_const m i j) * real_of (result ! j)) \<and>
           representable (row_dot m result i (Suc j))) \<and>
        representable (residual m equal result i) \<and>
        representable (total_residual m equal result (Suc i)))"

text \<open>What can be said of the sign of a sum of absolute values.\<close>

definition nonneg_or_NaN :: "Real \<Rightarrow> bool" where
  "nonneg_or_NaN v \<longleftrightarrow> v = NaN \<or> fge v (Finite 0)"

text \<open>
  A matrix as a caller has it after the constructor and one \<open>set_row\<close> for each row:
  the dimensions, the grid of finite values, and \<open>dummy\<close> still NaN. It writes the
  example systems below.
\<close>

definition finite_matrix :: "nat \<Rightarrow> nat \<Rightarrow> real list list \<Rightarrow> Matrix" where
  "finite_matrix rows columns xs =
     \<lparr>n_rows = rows, n_columns = columns, cell = map (map Finite) xs, dummy = NaN\<rparr>"

text \<open>
  Two systems of five equations in four unknowns with the exact solution
  \<open>x = [1,1,1,1]\<close> in four of the rows. With the right-hand side \<open>[3,2,1,1,7]\<close> the
  rows 0 to 3 of \<open>fitted_system\<close> hold for \<open>x\<close> and row 4 does not. With the
  right-hand side \<open>[2,5,1,1,1]\<close> the rows 0, 2, 3 and 4 of \<open>contradicted_system\<close> hold
  for \<open>x\<close> and row 1 does not.
\<close>

definition fitted_system :: Matrix where
  "fitted_system =
     finite_matrix 5 4 [[2, 1, 0, 0], [1, 1, 0, 0], [0, 0, 1, 0], [0, 0, 0, 1], [1, 0, 0, 0]]"

definition contradicted_system :: Matrix where
  "contradicted_system =
     finite_matrix 5 4 [[1, 1, 0, 0], [1, 1, 0, 0], [0, 0, 1, 0], [0, 0, 0, 1], [1, 0, 0, 0]]"

text \<open>
  To state which rows \<open>Solve\<close> works on: the square matrix of the first \<open>n_columns\<close>
  rows, and the same restriction of a state of the elimination.
\<close>

definition leading_rows :: "Matrix \<Rightarrow> Matrix" where
  "leading_rows m = m\<lparr>n_rows := n_columns m, cell := take (n_columns m) (cell m)\<rparr>"

definition leading_state ::
  "nat \<Rightarrow> error + (Matrix \<times> Real list) option \<Rightarrow> error + (Matrix \<times> Real list) option" where
  "leading_state n = map_sum id (map_option (\<lambda>(m, e). (leading_rows m, take n e)))"

section \<open>Termination of the search loop\<close>

text \<open>
  The counters are the digits of a number in mixed radix, least significant first; a
  column without candidates counts as radix one. Every pass through the \<open>else\<close>
  branch that continues increases that number, which is below the product of the
  radices.
\<close>

definition radix :: "nat list list \<Rightarrow> nat \<Rightarrow> nat" where
  "radix nze_list i = max 1 (length (nze_list ! i))"

definition weight :: "nat list list \<Rightarrow> nat \<Rightarrow> nat" where
  "weight nze_list i = (\<Prod>j<i. radix nze_list j)"

definition odo_value :: "nat \<Rightarrow> nat list list \<Rightarrow> nat list \<Rightarrow> nat" where
  "odo_value n nze_list li = (\<Sum>i<n. li ! i * weight nze_list i)"

definition odo_inv :: "nat \<Rightarrow> nat list list \<Rightarrow> nat list \<Rightarrow> bool" where
  "odo_inv n nze_list li \<longleftrightarrow>
     n \<le> length li \<and> n \<le> length nze_list \<and> (\<forall>i<n. li ! i < radix nze_list i)"

lemma weight_Suc: "weight nze (Suc i) = weight nze i * radix nze i"
  by (simp add: weight_def)

lemma radix_pos: "0 < radix nze i"
  by (simp add: radix_def)

lemma odo_value_bound:
  "\<forall>i<n. li ! i < radix nze i \<Longrightarrow> odo_value n nze li < weight nze n"
proof (induction n)
  case 0
  then show ?case by (simp add: odo_value_def weight_def)
next
  case (Suc n)
  then have IH: "odo_value n nze li < weight nze n" by simp
  have d: "li ! n + 1 \<le> radix nze n" using Suc.prems by (simp add: Suc_leI)
  have "odo_value (Suc n) nze li = odo_value n nze li + li ! n * weight nze n"
    by (simp add: odo_value_def)
  also have "\<dots> < weight nze n + li ! n * weight nze n" using IH by simp
  also have "\<dots> = (li ! n + 1) * weight nze n" by simp
  also have "\<dots> \<le> radix nze n * weight nze n" using d mult_le_mono1 by blast
  finally show ?case by (simp add: weight_Suc mult.commute)
qed

lemma odo_value_update:
  assumes "i < n" "i < length li"
  shows "odo_value n nze (li[i := a]) + li ! i * weight nze i
       = odo_value n nze li + a * weight nze i"
proof -
  have fin: "finite {..<n}" and mem: "i \<in> {..<n}" using assms by auto
  have rest: "(\<Sum>j\<in>{..<n} - {i}. li[i := a] ! j * weight nze j)
            = (\<Sum>j\<in>{..<n} - {i}. li ! j * weight nze j)"
    by (rule sum.cong) auto
  have 1: "odo_value n nze (li[i := a])
         = a * weight nze i + (\<Sum>j\<in>{..<n} - {i}. li ! j * weight nze j)"
    unfolding odo_value_def using sum.remove[OF fin mem, of "\<lambda>j. li[i := a] ! j * weight nze j"]
      rest assms by simp
  have 2: "odo_value n nze li
         = li ! i * weight nze i + (\<Sum>j\<in>{..<n} - {i}. li ! j * weight nze j)"
    unfolding odo_value_def using sum.remove[OF fin mem, of "\<lambda>j. li ! j * weight nze j"] by simp
  show ?thesis using 1 2 by simp
qed

lemma carry_length: "carry nze is li = Inr li' \<Longrightarrow> length li' = length li"
  by (induction "is" arbitrary: li) (auto split: if_splits)


lemma carry_below:
  "carry nze [i..<m] li = Inr li' \<Longrightarrow> j < i \<Longrightarrow> li' ! j = li ! j"
proof (induction "m - i" arbitrary: i li)
  case 0
  then show ?case by simp
next
  case (Suc k)
  then have lt: "i < m" by simp
  have k: "k = m - Suc i" using Suc.hyps(2) by simp
  have ji: "j < Suc i" "j \<noteq> i" "j \<noteq> Suc i" using Suc.prems(2) by simp_all
  show ?case
  proof (cases "length (nze ! i) \<le> li ! i")
    case True
    with Suc.prems(1) lt
    have c: "carry nze [Suc i..<m] (li[i := 0, i + 1 := li ! (i + 1) + 1]) = Inr li'"
      by (simp add: upt_conv_Cons split: if_splits)
    from Suc.hyps(1)[OF k c ji(1)] ji show ?thesis by simp
  next
    case False
    with Suc.prems(1) lt have c: "carry nze [Suc i..<m] li = Inr li'"
      by (simp add: upt_conv_Cons split: if_splits)
    from Suc.hyps(1)[OF k c ji(1)] show ?thesis .
  qed
qed

lemma carry_post:
  "carry nze [i..<m] li = Inr li' \<Longrightarrow> i \<le> j \<Longrightarrow> j < m \<Longrightarrow> li' ! j < radix nze j"
proof (induction "m - i" arbitrary: i li)
  case 0
  then show ?case by simp
next
  case (Suc k)
  then have lt: "i < m" by simp
  have k: "k = m - Suc i" using Suc.hyps(2) by simp
  show ?case
  proof (cases "length (nze ! i) \<le> li ! i")
    case True
    with Suc.prems(1) lt
    have c: "carry nze [Suc i..<m] (li[i := 0, i + 1 := li ! (i + 1) + 1]) = Inr li'"
      and len: "i < length li"
      by (simp_all add: upt_conv_Cons split: if_splits)
    show ?thesis
    proof (cases "j = i")
      case True
      have "li' ! i = (li[i := 0, i + 1 := li ! (i + 1) + 1]) ! i"
        by (rule carry_below[OF c]) simp
      then show ?thesis using True len by (simp add: radix_pos)
    next
      case False
      with Suc.prems(2) have "Suc i \<le> j" by simp
      from Suc.hyps(1)[OF k c this Suc.prems(3)] show ?thesis .
    qed
  next
    case False
    with Suc.prems(1) lt have c: "carry nze [Suc i..<m] li = Inr li'"
      by (simp add: upt_conv_Cons split: if_splits)
    show ?thesis
    proof (cases "j = i")
      case True
      have "li' ! i = li ! i" by (rule carry_below[OF c]) simp
      then show ?thesis using True False by (simp add: radix_def)
    next
      case F: False
      with Suc.prems(2) have "Suc i \<le> j" by simp
      from Suc.hyps(1)[OF k c this Suc.prems(3)] show ?thesis .
    qed
  qed
qed

lemma carry_step_value:
  assumes "Suc i < n" "n \<le> length li" "li ! i \<le> radix nze i"
  shows "odo_value n nze li \<le> odo_value n nze (li[i := 0, i + 1 := li ! (i + 1) + 1])"
proof -
  let ?b = "li ! (i + 1)"
  have 1: "odo_value n nze (li[i := 0]) + li ! i * weight nze i = odo_value n nze li"
    using odo_value_update[of i n li nze 0] assms by simp
  have 2: "odo_value n nze (li[i := 0, i + 1 := ?b + 1]) + ?b * weight nze (Suc i)
         = odo_value n nze (li[i := 0]) + (?b + 1) * weight nze (Suc i)"
    using odo_value_update[of "i + 1" n "li[i := 0]" nze "?b + 1"] assms by simp
  have 3: "li ! i * weight nze i \<le> weight nze (Suc i)"
    using assms(3) by (simp add: weight_Suc mult.commute)
  from 1 2 3 show ?thesis by simp
qed

lemma carry_value:
  "carry nze [i..<m] li = Inr li' \<Longrightarrow> m < n \<Longrightarrow> n \<le> length li \<Longrightarrow>
   li ! i \<le> radix nze i \<Longrightarrow> (\<forall>j. i < j \<and> j \<le> m \<longrightarrow> li ! j < radix nze j) \<Longrightarrow>
   odo_value n nze li \<le> odo_value n nze li'"
proof (induction "m - i" arbitrary: i li)
  case 0
  then show ?case by simp
next
  case (Suc k)
  then have lt: "i < m" by simp
  have k: "k = m - Suc i" using Suc.hyps(2) by simp
  show ?case
  proof (cases "length (nze ! i) \<le> li ! i")
    case True
    let ?li = "li[i := 0, i + 1 := li ! (i + 1) + 1]"
    from True Suc.prems(1) lt
    have c: "carry nze [Suc i..<m] ?li = Inr li'"
      by (simp add: upt_conv_Cons split: if_splits)
    have s: "odo_value n nze li \<le> odo_value n nze ?li"
      using carry_step_value[of i n li nze] lt Suc.prems by simp
    have a: "?li ! Suc i \<le> radix nze (Suc i)"
      using Suc.prems lt by (simp add: Suc_leI)
    have b: "\<forall>j. Suc i < j \<and> j \<le> m \<longrightarrow> ?li ! j < radix nze j"
      using Suc.prems by simp
    have "odo_value n nze ?li \<le> odo_value n nze li'"
      using Suc.hyps(1)[OF k c Suc.prems(2) _ a b] Suc.prems(3) by simp
    with s show ?thesis by simp
  next
    case False
    with Suc.prems(1) lt have c: "carry nze [Suc i..<m] li = Inr li'"
      by (simp add: upt_conv_Cons split: if_splits)
    have a: "li ! Suc i \<le> radix nze (Suc i)"
      using Suc.prems(5) lt by (simp add: less_imp_le)
    have b: "\<forall>j. Suc i < j \<and> j \<le> m \<longrightarrow> li ! j < radix nze j"
      using Suc.prems by simp
    show ?thesis using Suc.hyps(1)[OF k c Suc.prems(2,3) a b] .
  qed
qed

lemma advance_inv:
  assumes "advance n nze li = Inr (Some li')"
  shows "odo_inv n nze li'"
proof -
  from assms obtain c: "carry nze [0..<n - 1] (li[0 := li ! 0 + 1]) = Inr li'"
    and n: "n \<noteq> 0" "n - 1 < length li'" "n - 1 < length nze"
    and last: "li' ! (n - 1) < length (nze ! (n - 1))"
    by (auto simp: advance_def split: if_splits sum.splits)
  have "li' ! i < radix nze i" if "i < n" for i
  proof (cases "i < n - 1")
    case True
    then show ?thesis using carry_post[OF c, of i] by simp
  next
    case False
    with that have "i = n - 1" by simp
    then show ?thesis using last by (simp add: radix_def)
  qed
  moreover have "n \<le> length li'" "n \<le> length nze" using n by arith+
  ultimately show ?thesis by (simp add: odo_inv_def)
qed

lemma advance_value:
  assumes "advance n nze li = Inr (Some li')" "odo_inv n nze li"
  shows "odo_value n nze li < odo_value n nze li'"
proof -
  from assms(1) obtain c: "carry nze [0..<n - 1] (li[0 := li ! 0 + 1]) = Inr li'"
    and n: "n \<noteq> 0" "length li \<noteq> 0"
    by (auto simp: advance_def split: if_splits sum.splits)
  let ?li = "li[0 := li ! 0 + 1]"
  have len: "n \<le> length li" and dig: "\<forall>i<n. li ! i < radix nze i"
    using assms(2) by (simp_all add: odo_inv_def)
  have "odo_value n nze ?li + li ! 0 * weight nze 0 = odo_value n nze li + (li ! 0 + 1) * weight nze 0"
    using odo_value_update[of 0 n li nze "li ! 0 + 1"] n by simp
  then have inc: "odo_value n nze ?li = odo_value n nze li + 1"
    by (simp add: weight_def)
  have a: "?li ! 0 \<le> radix nze 0" using dig n by (simp add: Suc_leI)
  have b: "\<forall>j. 0 < j \<and> j \<le> n - 1 \<longrightarrow> ?li ! j < radix nze j" using dig n by auto
  have "odo_value n nze ?li \<le> odo_value n nze li'"
    using carry_value[OF c, of n] n len a b by simp
  with inc show ?thesis by simp
qed

termination pivot_search
proof (relation "measure (\<lambda>(nrows, n, nze, li).
         if odo_inv n nze li then weight nze n - odo_value n nze li else weight nze n + 1)")
  show "wf (measure (\<lambda>(nrows, n, nze, li).
         if odo_inv n nze li then weight nze n - odo_value n nze li else weight nze n + 1))"
    by simp
next
  fix nrows n :: nat and nze :: "nat list list" and li li' :: "nat list" and ru :: "bool list" and x2
  assume "advance n nze li = Inr x2" "x2 = Some li'"
  then have adv: "advance n nze li = Inr (Some li')" by simp
  have inv': "odo_inv n nze li'" by (rule advance_inv[OF adv])
  then have bound: "odo_value n nze li' < weight nze n"
    using odo_value_bound[of n li' nze] by (simp add: odo_inv_def)
  show "((nrows, n, nze, li'), (nrows, n, nze, li)) \<in> measure (\<lambda>(nrows, n, nze, li).
         if odo_inv n nze li then weight nze n - odo_value n nze li else weight nze n + 1)"
  proof (cases "odo_inv n nze li")
    case True
    from advance_value[OF adv True] bound inv' True show ?thesis by simp
  next
    case False
    with inv' show ?thesis by simp
  qed
qed

section \<open>The rounding\<close>

lemma pow2_pos: "0 < pow2 e"
  by (simp add: pow2_def)

lemma pow2_powr: "pow2 e = 2 powr (real_of_int e)"
proof (cases "0 \<le> e")
  case True
  then show ?thesis by (simp add: pow2_def powr_realpow[symmetric])
next
  case False
  then have "2 powr (real_of_int e) = 1 / 2 powr (real_of_int (- e))"
    by (simp add: powr_minus_divide)
  also have "\<dots> = 1 / 2 ^ nat (- e)" using False by (simp add: powr_realpow[symmetric])
  finally show ?thesis using False by (simp add: pow2_def)
qed



lemma power_le_floor: "2 ^ nat k \<le> \<lfloor>x\<rfloor> \<Longrightarrow> (2::real) ^ nat k \<le> x"
  by (simp add: le_floor_iff)

lemma floor_less_power: "\<lfloor>x\<rfloor> < 2 ^ nat b \<Longrightarrow> x < (2::real) ^ nat b"
  by (simp add: floor_less_iff)

lemma le_power_ceiling: "\<lceil>z\<rceil> - 1 < 2 ^ nat c \<Longrightarrow> z \<le> (2::real) ^ nat c"
proof -
  assume "\<lceil>z\<rceil> - 1 < 2 ^ nat c"
  then have "\<lceil>z\<rceil> \<le> 2 ^ nat c" by simp
  then show ?thesis by (simp add: ceiling_le_iff)
qed

lemma power_less_ceiling: "2 ^ nat k \<le> \<lceil>z\<rceil> - 1 \<Longrightarrow> (2::real) ^ nat k < z"
proof -
  assume "2 ^ nat k \<le> \<lceil>z\<rceil> - 1"
  then have "2 ^ nat k < \<lceil>z\<rceil>" by simp
  then show ?thesis by (simp add: less_ceiling_iff)
qed

lemma floor_log2_bounds:
  assumes "0 < x"
  shows "pow2 (floor_log2 x) \<le> x \<and> x < pow2 (floor_log2 x + 1)"
proof (cases "1 \<le> x")
  case True
  let ?n = "\<lfloor>x\<rfloor>"
  let ?b = "bitlen ?n"
  have n: "0 < ?n" using True by simp
  from bitlen_bounds[OF n] have lo: "2 ^ nat (?b - 1) \<le> ?n" and hi: "?n < 2 ^ nat ?b" by simp_all
  have b: "1 \<le> ?b" using n by (simp add: bitlen_alt_def)
  have e: "floor_log2 x = ?b - 1" using True by (simp add: floor_log2_def)
  have 1: "pow2 (?b - 1) \<le> x" using power_le_floor[OF lo] b by (simp add: pow2_def)
  have 2: "x < pow2 ?b" using floor_less_power[OF hi] b by (simp add: pow2_def)
  show ?thesis unfolding e using 1 2 by simp
next
  case False
  let ?m = "\<lceil>1 / x\<rceil>"
  let ?c = "bitlen (?m - 1)"
  have z: "1 < 1 / x" using False assms by simp
  then have m: "0 < ?m - 1" by (simp add: less_ceiling_iff)
  from bitlen_bounds[OF m] have lo: "2 ^ nat (?c - 1) \<le> ?m - 1" and hi: "?m - 1 < 2 ^ nat ?c"
    by simp_all
  have c: "1 \<le> ?c" using m by (simp add: bitlen_alt_def)
  have e: "floor_log2 x = - ?c" using False by (simp add: floor_log2_def)
  have "1 / x \<le> 2 ^ nat ?c" by (rule le_power_ceiling[OF hi])
  then have "1 \<le> 2 ^ nat ?c * x" using assms by (simp add: field_simps)
  then have 1: "pow2 (- ?c) \<le> x" using c by (simp add: pow2_def field_simps)
  have "2 ^ nat (?c - 1) < 1 / x" by (rule power_less_ceiling[OF lo])
  then have lt: "x * 2 ^ nat (?c - 1) < 1" using assms by (simp add: field_simps)
  have 2: "x < pow2 (- ?c + 1)"
  proof (cases "?c = 1")
    case True
    then show ?thesis using lt by (simp add: pow2_def)
  next
    case F: False
    then have "\<not> 0 \<le> - ?c + 1" and "nat (- (- ?c + 1)) = nat (?c - 1)" using c by simp_all
    then show ?thesis using lt by (simp add: pow2_def field_simps)
  qed
  show ?thesis unfolding e using 1 2 by simp
qed


lemma pow2_add: "pow2 (a + b) = pow2 a * pow2 b"
  by (simp add: pow2_powr powr_add)

lemma pow2_less_iff: "pow2 a < pow2 b \<longleftrightarrow> a < b"
  by (simp add: pow2_powr)

lemma pow2_le_iff: "pow2 a \<le> pow2 b \<longleftrightarrow> a \<le> b"
  by (simp add: pow2_powr)

lemma floor_log2_unique:
  assumes "pow2 e \<le> x" "x < pow2 (e + 1)"
  shows "floor_log2 x = e"
proof -
  have x: "0 < x" using assms(1) pow2_pos[of e] by linarith
  from floor_log2_bounds[OF x] have lo: "pow2 (floor_log2 x) \<le> x"
    and hi: "x < pow2 (floor_log2 x + 1)" by simp_all
  have "pow2 (floor_log2 x) < pow2 (e + 1)" using lo assms(2) by linarith
  then have 1: "floor_log2 x < e + 1" by (simp add: pow2_less_iff)
  have "pow2 e < pow2 (floor_log2 x + 1)" using hi assms(1) by linarith
  then have 2: "e < floor_log2 x + 1" by (simp add: pow2_less_iff)
  from 1 2 show ?thesis by linarith
qed

lemma floor_log2_pow2: "floor_log2 (pow2 e) = e"
  by (rule floor_log2_unique) (simp_all add: pow2_less_iff)

lemma floor_log2_ge:
  assumes "pow2 e \<le> x"
  shows "e \<le> floor_log2 x"
proof -
  have x: "0 < x" using assms pow2_pos[of e] by linarith
  from floor_log2_bounds[OF x] have "x < pow2 (floor_log2 x + 1)" by simp
  then have "pow2 e < pow2 (floor_log2 x + 1)" using assms by linarith
  then show ?thesis by (simp add: pow2_less_iff)
qed

lemma round_half_even_of_int: "round_half_even (of_int k) = k"
  by (simp add: round_half_even_def nearest_even_def)

lemma round_half_even_nonneg: "0 \<le> q \<Longrightarrow> 0 \<le> round_half_even q"
  by (simp add: round_half_even_def nearest_even_def)

lemmas round_real_unfold =
  round_real_def round_exponent_def round_unit_def round_multiple_def

lemma round_real_nonneg:
  assumes "0 \<le> x"
  shows "round_real x = PInf \<or> (\<exists>r\<ge>0. round_real x = Finite r)"
proof (cases "x = 0")
  case True
  then show ?thesis by (simp add: round_real_def)
next
  case False
  with assms have pos: "0 < x" by simp
  let ?u = "pow2 (ulp_exponent (floor_log2 \<bar>x\<bar>))"
  have "0 \<le> x / ?u" using assms pow2_pos[of "ulp_exponent (floor_log2 \<bar>x\<bar>)"] by simp
  then have "0 \<le> round_half_even (x / ?u)" by (rule round_half_even_nonneg)
  then have "0 \<le> of_int (round_half_even (x / ?u)) * ?u"
    using pow2_pos[of "ulp_exponent (floor_log2 \<bar>x\<bar>)"] by simp
  then show ?thesis using pos by (auto simp: round_real_unfold signed_inf_def)
qed

lemma round_real_overflow:
  assumes "pow2 (max_exponent + 1) \<le> \<bar>x\<bar>"
  shows "round_real x = signed_inf (0 < x)"
proof -
  have "max_exponent + 1 \<le> floor_log2 \<bar>x\<bar>" using assms by (rule floor_log2_ge)
  moreover have "x \<noteq> 0" using assms pow2_pos[of "max_exponent + 1"] by auto
  ultimately show ?thesis by (simp add: round_real_unfold)
qed

lemma round_real_pow2:
  assumes "min_exponent \<le> e" "e \<le> max_exponent"
  shows "round_real (pow2 e) = Finite (pow2 e)"
proof -
  let ?u = "e - int significand_bits + 1"
  have u: "ulp_exponent e = ?u"
    using assms(1) by (simp add: ulp_exponent_def)
  have decomp: "pow2 e = pow2 (int significand_bits - 1) * pow2 ?u"
    using pow2_add[of "int significand_bits - 1" ?u] by simp
  have mant: "pow2 (int significand_bits - 1) = of_int (2 ^ (significand_bits - 1))"
    by (simp add: pow2_def significand_bits_def)
  have q: "pow2 e / pow2 ?u = of_int (2 ^ (significand_bits - 1))"
    using decomp mant pow2_pos[of ?u] by simp
  have n: "round_half_even (pow2 e / pow2 ?u) = 2 ^ (significand_bits - 1)"
    unfolding q by (rule round_half_even_of_int)
  have ne: "\<bar>(2::int) ^ (significand_bits - 1)\<bar> \<noteq> 2 ^ significand_bits"
    by (simp add: significand_bits_def)
  have recomb: "of_int (2 ^ (significand_bits - 1)) * pow2 ?u = pow2 e"
    using decomp mant by simp
  show ?thesis
    using pow2_pos[of e] assms(2) ne recomb
    by (simp add: round_real_unfold u n floor_log2_pow2)
qed

lemma round_real_zero [simp]: "round_real 0 = Finite 0"
  by (simp add: round_real_def)

lemma round_real_twice_largest_power:
  "round_real (pow2 max_exponent * 2) = PInf"
  "round_real (- (pow2 max_exponent * 2)) = NInf"
proof -
  have p: "pow2 (max_exponent + 1) = pow2 max_exponent * 2"
    using pow2_add[of max_exponent 1] by (simp add: pow2_def)
  have pos: "0 < pow2 max_exponent * 2" using pow2_pos[of max_exponent] by simp
  show "round_real (pow2 max_exponent * 2) = PInf"
    using round_real_overflow[of "pow2 max_exponent * 2"] p pos by (simp add: signed_inf_def)
  show "round_real (- (pow2 max_exponent * 2)) = NInf"
    using round_real_overflow[of "- (pow2 max_exponent * 2)"] p pos by (simp add: signed_inf_def)
qed

lemma representable_largest_power: "representable (pow2 max_exponent)"
  unfolding representable_def
  by (rule round_real_pow2) (simp_all add: min_exponent_def max_exponent_def)

section \<open>The members of \<open>Matrix\<close>\<close>

lemma finite_matrix_dims [simp]:
  "n_rows (finite_matrix rows columns xs) = rows"
  "n_columns (finite_matrix rows columns xs) = columns"
  by (simp_all add: finite_matrix_def)

text \<open>The constructor establishes the class invariant and the mutators keep it.\<close>

lemma wf_Matrix_new: "wf_Matrix (Matrix_new rows columns)"
  by (simp add: wf_Matrix_def Matrix_new_def Matrix_default_def list_all_iff)

lemma wf_Matrix_assign: "wf_Matrix m \<Longrightarrow> wf_Matrix (assign m row column v)"
  by (auto simp: wf_Matrix_def assign_def list_all_length nth_list_update)

lemma wf_Matrix_set_row:
  "wf_Matrix m \<Longrightarrow> set_row index data m = Inr m' \<Longrightarrow> wf_Matrix m'"
  by (auto simp: wf_Matrix_def set_row_def list_all_length nth_list_update split: if_splits)

lemma set_column_loop_shape:
  "set_column_loop index data is cl = Inr cl' \<Longrightarrow>
   length cl' = length cl \<and> (\<forall>i<length cl. length (cl' ! i) = length (cl ! i))"
proof (induction "is" arbitrary: cl)
  case Nil
  then show ?case by simp
next
  case (Cons k ks)
  from Cons.prems have r:
    "set_column_loop index data ks (cl[k := (cl ! k)[index := data ! k]]) = Inr cl'"
    and k: "k < length cl"
    by (simp_all split: if_splits)
  from Cons.IH[OF r] k show ?case by (auto simp: nth_list_update)
qed

lemma wf_Matrix_set_column:
  assumes "wf_Matrix m" "set_column index data m = Inr m'"
  shows "wf_Matrix m'"
proof (cases "m' = m")
  case True
  then show ?thesis using assms(1) by simp
next
  case False
  with assms(2) obtain cl' where
    l: "set_column_loop index data [0..<n_rows m] (cell m) = Inr cl'" and m': "m' = m\<lparr>cell := cl'\<rparr>"
    by (auto simp: set_column_def split: if_splits sum.splits)
  from set_column_loop_shape[OF l] assms(1) show ?thesis
    by (simp add: m' wf_Matrix_def list_all_length)
qed

lemma wf_Matrix_finite_matrix:
  "length xs = rows \<Longrightarrow> \<forall>r\<in>set xs. length r = columns \<Longrightarrow> wf_Matrix (finite_matrix rows columns xs)"
  by (simp add: wf_Matrix_def finite_matrix_def list_all_iff)

lemma all_finite_iff: "length data = n \<Longrightarrow> all_finite n data \<longleftrightarrow> (\<forall>x\<in>set data. isfinite x)"
  by (auto simp: all_finite_def list_all_iff all_set_conv_all_nth)

text \<open>
  Claim C5. When the argument of \<open>set_row\<close> has a length other than the number of
  columns, or holds a value that is not finite, the matrix is returned as it was; the
  same for \<open>set_column\<close> and the number of rows. Neither case reaches the store into
  \<open>cell\<close>, so this holds for every index, in range or not.
\<close>

theorem set_row_set_column_all_or_nothing:
  "((length data \<noteq> n_columns m \<or> (\<exists>x\<in>set data. \<not> isfinite x)) \<longrightarrow> set_row index data m = Inr m) \<and>
   ((length data \<noteq> n_rows m \<or> (\<exists>x\<in>set data. \<not> isfinite x)) \<longrightarrow> set_column index data m = Inr m)"
proof (intro conjI impI)
  assume h: "length data \<noteq> n_columns m \<or> (\<exists>x\<in>set data. \<not> isfinite x)"
  show "set_row index data m = Inr m"
  proof (cases "length data = n_columns m")
    case True
    with h have "\<not> all_finite (n_columns m) data" by (simp add: all_finite_iff)
    then show ?thesis by (simp add: set_row_def)
  next
    case False
    then show ?thesis by (simp add: set_row_def)
  qed
next
  assume h: "length data \<noteq> n_rows m \<or> (\<exists>x\<in>set data. \<not> isfinite x)"
  show "set_column index data m = Inr m"
  proof (cases "length data = n_rows m")
    case True
    with h have "\<not> all_finite (n_rows m) data" by (simp add: all_finite_iff)
    then show ?thesis by (simp add: set_column_def)
  next
    case False
    then show ?thesis by (simp add: set_column_def)
  qed
qed

theorem set_row_set_column_all_or_nothing_witness:
  "set_row 0 [Finite 1, NaN] (Matrix_new 2 2) = Inr (Matrix_new 2 2) \<and>
   set_row 1 [Finite 1] (Matrix_new 2 2) = Inr (Matrix_new 2 2) \<and>
   set_column 0 [PInf, Finite 1] (Matrix_new 2 2) = Inr (Matrix_new 2 2) \<and>
   set_column 1 [Finite 1, Finite 2, Finite 3] (Matrix_new 2 2) = Inr (Matrix_new 2 2)"
  using set_row_set_column_all_or_nothing [of "[Finite 1, NaN]" "Matrix_new 2 2" 0]
    set_row_set_column_all_or_nothing [of "[Finite 1]" "Matrix_new 2 2" 1]
    set_row_set_column_all_or_nothing [of "[PInf, Finite 1]" "Matrix_new 2 2" 0]
    set_row_set_column_all_or_nothing [of "[Finite 1, Finite 2, Finite 3]" "Matrix_new 2 2" 1]
  by (simp add: Matrix_new_def)

text \<open>
  Claim C10. For a coordinate out of range, an assignment through the non-const
  \<open>operator()\<close> changes the member \<open>dummy\<close> and nothing else: the grid, both
  dimensions and every value the const accessor returns stay as they were.
\<close>

theorem write_out_of_range_frame:
  assumes "row \<ge> n_rows m \<or> column \<ge> n_columns m"
  shows "assign m row column v = m\<lparr>dummy := v\<rparr> \<and>
         cell (assign m row column v) = cell m \<and>
         n_rows (assign m row column v) = n_rows m \<and>
         n_columns (assign m row column v) = n_columns m \<and>
         at_const (assign m row column v) r c = at_const m r c"
  using assms by (auto simp: assign_def at_const_def)

theorem write_out_of_range_frame_witness:
  "assign (Matrix_new 2 2) 2 0 (Finite 9) = (Matrix_new 2 2)\<lparr>dummy := Finite 9\<rparr> \<and>
   cell (assign (Matrix_new 2 2) 2 0 (Finite 9)) = [[Finite 0, Finite 0], [Finite 0, Finite 0]] \<and>
   size_of (assign (Matrix_new 2 2) 2 0 (Finite 9)) = (2, 2) \<and>
   at_const (assign (Matrix_new 2 2) 2 0 (Finite 9)) 1 1 = Finite 0"
  using write_out_of_range_frame [of "Matrix_new 2 2" 2 0 "Finite 9" 1 1]
  by (simp add: Matrix_new_def size_of_def at_const_def numeral_2_eq_2)

text \<open>
  Claim C8. With fewer rows than columns the constructor leaves the dimensions at
  \<open>(0, 0)\<close>; the matrix is not valid, and \<open>Solve\<close> returns the empty sequence for every
  right-hand side and every \<open>epsilon\<close>.
\<close>

theorem undersized_matrix_is_empty:
  assumes "rows < columns"
  shows "size_of (Matrix_new rows columns) = (0, 0) \<and>
         \<not> is_valid (Matrix_new rows columns) \<and>
         Solve (Matrix_new rows columns) equal epsilon = Inr []"
  using assms
  by (simp add: Matrix_new_def Matrix_default_def size_of_def is_valid_def Solve_def square_system_def)

theorem undersized_matrix_is_empty_witness:
  "size_of (Matrix_new 2 3) = (0, 0) \<and> \<not> is_valid (Matrix_new 2 3) \<and>
   Solve (Matrix_new 2 3) [Finite 1, Finite 2] magnitude_zero = Inr []"
  using undersized_matrix_is_empty [of 2 3 "[Finite 1, Finite 2]" magnitude_zero] by simp

lemma set_column_loop_in_range:
  assumes "length cl = n" "length data = n" "\<forall>i<n. length (cl ! i) = nc" "index < nc"
  shows "\<exists>cl'. set_column_loop index data [k..<n] cl = Inr cl' \<and> length cl' = n \<and>
          (\<forall>i<n. cl' ! i = (if k \<le> i then (cl ! i)[index := data ! i] else cl ! i))"
  using assms
proof (induction "n - k" arbitrary: k cl)
  case 0
  then show ?case by simp
next
  case (Suc d)
  then have lt: "k < n" by simp
  let ?cl = "cl[k := (cl ! k)[index := data ! k]]"
  have d: "d = n - Suc k" using Suc.hyps(2) by simp
  have len: "length ?cl = n" using Suc.prems by simp
  have rows: "\<forall>i<n. length (?cl ! i) = nc"
    using Suc.prems lt by (auto simp: nth_list_update)
  from Suc.hyps(1)[OF d len Suc.prems(2) rows Suc.prems(4)]
  obtain cl' where r: "set_column_loop index data [Suc k..<n] ?cl = Inr cl'"
    and l: "length cl' = n"
    and v: "\<forall>i<n. cl' ! i = (if Suc k \<le> i then (?cl ! i)[index := data ! i] else ?cl ! i)"
    by blast
  have "set_column_loop index data [k..<n] cl = Inr cl'"
    using r lt Suc.prems by (simp add: upt_conv_Cons)
  moreover have "cl' ! i = (if k \<le> i then (cl ! i)[index := data ! i] else cl ! i)"
    if "i < n" for i
  proof -
    consider "i < k" | "i = k" | "k < i" by linarith
    then show ?thesis
      using v that Suc.prems(1) lt by cases (simp_all add: nth_list_update)
  qed
  ultimately show ?case using l by blast
qed


lemma wf_Matrix_rows: "wf_Matrix m \<Longrightarrow> i < n_rows m \<Longrightarrow> length (cell m ! i) = n_columns m"
  by (simp add: wf_Matrix_def list_all_length)

text \<open>
  Claim C9, as amended. \<open>set_column\<close> does not test its column index: the loop bound
  limits the row counter \<open>i\<close>, not \<open>index\<close>. On a matrix with at least one row and
  with data of the right length and all finite, an index at or beyond the number of
  columns makes the first store \<open>cell[0][index]\<close> an access out of range; an index
  below the number of columns makes every access in range, replaces that column by the
  data and leaves every other cell as it was.
\<close>

theorem set_column_index_unchecked:
  assumes "wf_Matrix m" "0 < n_rows m" "length data = n_rows m" "\<forall>x\<in>set data. isfinite x"
  shows "(n_columns m \<le> index \<longrightarrow> set_column index data m = Inl OutOfRange) \<and>
         (index < n_columns m \<longrightarrow>
            (\<exists>m'. set_column index data m = Inr m' \<and> wf_Matrix m' \<and> size_of m' = size_of m \<and>
                  (\<forall>r<n_rows m. \<forall>c<n_columns m.
                     at_const m' r c = (if c = index then data ! r else at_const m r c))))"
proof (intro conjI impI)
  have fin: "all_finite (n_rows m) data" using assms by (simp add: all_finite_iff)
  have len: "length (cell m) = n_rows m" using assms(1) by (simp add: wf_Matrix_def)
  {
    assume out: "n_columns m \<le> index"
    have "length (cell m ! 0) = n_columns m" using wf_Matrix_rows[OF assms(1,2)] .
    then have "set_column_loop index data [0..<n_rows m] (cell m) = Inl OutOfRange"
      using assms(2) out by (simp add: upt_conv_Cons)
    then show "set_column index data m = Inl OutOfRange"
      using assms fin by (simp add: set_column_def)
  }
  {
    assume inr: "index < n_columns m"
    have rows: "\<forall>i<n_rows m. length (cell m ! i) = n_columns m"
      using wf_Matrix_rows[OF assms(1)] by simp
    from set_column_loop_in_range[OF len assms(3) rows inr, of 0]
    obtain cl' where r: "set_column_loop index data [0..<n_rows m] (cell m) = Inr cl'"
      and l: "length cl' = n_rows m"
      and v: "\<forall>i<n_rows m. cl' ! i = (cell m ! i)[index := data ! i]"
      by auto
    let ?m = "m\<lparr>cell := cl'\<rparr>"
    have 1: "set_column index data m = Inr ?m"
      using r assms fin by (simp add: set_column_def)
    have 2: "wf_Matrix ?m"
      using l v rows by (simp add: wf_Matrix_def list_all_length)
    have 3: "size_of ?m = size_of m" by (simp add: size_of_def)
    have 4: "\<forall>r<n_rows m. \<forall>c<n_columns m.
               at_const ?m r c = (if c = index then data ! r else at_const m r c)"
      using v rows by (simp add: at_const_def nth_list_update)
    show "\<exists>m'. set_column index data m = Inr m' \<and> wf_Matrix m' \<and> size_of m' = size_of m \<and>
                  (\<forall>r<n_rows m. \<forall>c<n_columns m.
                     at_const m' r c = (if c = index then data ! r else at_const m r c))"
      using 1 2 3 4 by blast
  }
qed

theorem set_column_index_unchecked_witness:
  "set_column 2 [Finite 1, Finite 2] (Matrix_new 2 2) = Inl OutOfRange \<and>
   (\<exists>m'. set_column 1 [Finite 1, Finite 2] (Matrix_new 2 2) = Inr m' \<and>
         at_const m' 1 1 = Finite 2 \<and> at_const m' 1 0 = Finite 0)"
proof -
  have w: "wf_Matrix (Matrix_new 2 2)" by (simp add: wf_Matrix_def Matrix_new_def list_all_iff)
  have r: "0 < n_rows (Matrix_new 2 2)" by (simp add: Matrix_new_def)
  have l: "length [Finite 1, Finite 2] = n_rows (Matrix_new 2 2)" by (simp add: Matrix_new_def)
  have f: "\<forall>x\<in>set [Finite 1, Finite 2]. isfinite x" by simp
  have z: "at_const (Matrix_new 2 2) 1 0 = Finite 0"
    by (simp add: at_const_def Matrix_new_def numeral_2_eq_2)
  from set_column_index_unchecked[OF w r l f, of 2] set_column_index_unchecked[OF w r l f, of 1] z
  show ?thesis by (auto simp: Matrix_new_def)
qed

text \<open>
  The claim as stated fails on the one-by-one matrix with column index 1 and the data
  \<open>[0]\<close>: the store \<open>cell[0][1]\<close> is out of range.
\<close>

theorem set_column_out_of_range_counterexample:
  "size_of (Matrix_new 1 1) = (1, 1) \<and> all_finite 1 [Finite 0] \<and>
   set_column 1 [Finite 0] (Matrix_new 1 1) = Inl OutOfRange"
  by (simp add: size_of_def Matrix_new_def all_finite_def set_column_def)

section \<open>The search for a usable diagonal\<close>

text \<open>
  Claim C2. On the matrix \<open>[[0,1],[1,0]]\<close> with right-hand side \<open>[7,2]\<close> and the
  default \<open>epsilon\<close> the candidate lists are \<open>[[1],[0]]\<close>. The test marks
  \<open>row_used[list_index[i]]\<close>, the counters themselves rather than the candidate rows
  they select, so the counters \<open>[0,0]\<close> count as one row; the next step overflows the
  last counter and \<open>Solve\<close> returns the empty sequence, not \<open>[2,7]\<close>.
  \<open>ErrorEstimate\<close> is 0 on the solution \<open>[2,7]\<close> of the claim, and NaN on the empty
  sequence that \<open>Solve\<close> returns.
\<close>

theorem scenario_B_Solve_empty:
  "Solve (finite_matrix 2 2 [[0, 1], [1, 0]])
     [Finite 7, Finite 2] magnitude_zero = Inr [] \<and>
   nze_columns (finite_matrix 2 2 [[0, 1], [1, 0]])
     magnitude_zero 2 [0..<2] = Some [[1], [0]] \<and>
   pivot_search 2 2 [[1], [0]] [0, 0] = Inr None"
  by code_simp

lemma scenario_B_ErrorEstimate:
  "ErrorEstimate (finite_matrix 2 2 [[0, 1], [1, 0]])
     [Finite 7, Finite 2] [Finite 2, Finite 7] = Finite 0 \<and>
   ErrorEstimate (finite_matrix 2 2 [[0, 1], [1, 0]])
     [Finite 7, Finite 2] [] = NaN"
  by code_simp

text \<open>
  Claim C1. On the matrix \<open>[[0,1],[1,1]]\<close> the search accepts the counters \<open>[0,1]\<close>,
  and the square system is built from the rows \<open>list_index[row]\<close>, that is rows 0
  and 1 of the original: its cell \<open>(0,0)\<close> is zero, although column 0 has row 1 as its
  only candidate. The elimination then divides by that cell and \<open>Solve\<close> returns the
  empty sequence.
\<close>

theorem accepted_diagonal_zero:
  "pivot_branch (finite_matrix 2 2 [[0, 1], [1, 1]])
     [Finite 1, Finite 2] magnitude_zero 2 2
   = Inr (Some (finite_matrix 2 2 [[0, 1], [1, 1]],
                [Finite 1, Finite 2])) \<and>
   \<not> fge (fabs (at_const (finite_matrix 2 2 [[0, 1], [1, 1]]) 0 0))
          magnitude_zero \<and>
   nze_column (finite_matrix 2 2 [[0, 1], [1, 1]]) magnitude_zero 2 0 = [1] \<and>
   Solve (finite_matrix 2 2 [[0, 1], [1, 1]]) [Finite 1, Finite 2] magnitude_zero = Inr []"
  by code_simp

text \<open>
  Claim C4. On the valid two-by-one matrix \<open>[[0],[1]]\<close> the diagonal has a zero and
  column 0 has a candidate, so the search loop runs. \<open>list_index\<close> has one entry and
  the marking loop runs over \<open>i < n_rows = 2\<close>: it reads \<open>list_index[1]\<close>, out of
  range.
\<close>

theorem list_index_read_out_of_range:
  "is_valid (finite_matrix 2 1 [[0], [1]]) \<and>
   \<not> is_diagonal_nonzero (finite_matrix 2 1 [[0], [1]]) magnitude_zero \<and>
   nze_columns (finite_matrix 2 1 [[0], [1]]) magnitude_zero 2 [0..<1]
     = Some [[1]] \<and>
   set_row_used (replicate 1 0) [0..<2] (replicate 2 False) = Inl OutOfRange \<and>
   Solve (finite_matrix 2 1 [[0], [1]])
     [Finite 0, Finite 1] magnitude_zero = Inl OutOfRange"
  by code_simp


section \<open>The error estimate\<close>

lemma nonneg_or_NaN_cases:
  "nonneg_or_NaN v \<longleftrightarrow> v = NaN \<or> v = PInf \<or> (\<exists>r\<ge>0. v = Finite r)"
  by (cases v) (auto simp: nonneg_or_NaN_def)

lemma nonneg_or_NaN_fabs: "nonneg_or_NaN (fabs v)"
  by (cases v) (simp_all add: nonneg_or_NaN_def)

lemma nonneg_or_NaN_fadd:
  assumes "nonneg_or_NaN a" "nonneg_or_NaN b"
  shows "nonneg_or_NaN (fadd a b)"
proof -
  consider "a = NaN \<or> b = NaN" | "a = PInf" "b \<noteq> NaN" | "b = PInf" "a \<noteq> NaN"
    | x y where "a = Finite x" "b = Finite y" "0 \<le> x" "0 \<le> y"
    using assms by (auto simp: nonneg_or_NaN_cases)
  then show ?thesis
  proof cases
    case 1
    then show ?thesis by (cases a; cases b) (auto simp: nonneg_or_NaN_def)
  next
    case 2
    then show ?thesis using assms(2) by (cases b) (auto simp: nonneg_or_NaN_def)
  next
    case 3
    then show ?thesis using assms(1) by (cases a) (auto simp: nonneg_or_NaN_def)
  next
    case 4
    then have "0 \<le> x + y" by simp
    from round_real_nonneg[OF this] 4 show ?thesis by (auto simp: nonneg_or_NaN_cases)
  qed
qed

lemma nonneg_or_NaN_fold:
  "nonneg_or_NaN acc \<Longrightarrow> nonneg_or_NaN (fold (\<lambda>i error. fadd error (fabs (f i))) is acc)"
  by (induction "is" arbitrary: acc) (simp_all add: nonneg_or_NaN_fadd nonneg_or_NaN_fabs)

lemma ErrorEstimate_nonneg_or_NaN:
  "ErrorEstimate m equal result = NaN \<or> fge (ErrorEstimate m equal result) (Finite 0)"
proof (cases "\<not> is_valid m \<or> n_rows m \<noteq> length equal \<or> n_columns m \<noteq> length result")
  case True
  then show ?thesis by (auto simp: ErrorEstimate_def size_of_def)
next
  case False
  let ?f = "\<lambda>i. fsub (row_sum m result (n_columns m) i) (equal ! i)"
  have z: "nonneg_or_NaN (Finite 0)" by (simp add: nonneg_or_NaN_def)
  have e: "ErrorEstimate m equal result
         = fold (\<lambda>i error. fadd error (fabs (?f i))) [0..<n_rows m] (Finite 0)"
    using False by (simp add: ErrorEstimate_def size_of_def)
  have "nonneg_or_NaN (ErrorEstimate m equal result)"
    unfolding e by (rule nonneg_or_NaN_fold[OF z])
  then show ?thesis by (simp add: nonneg_or_NaN_def)
qed

lemma isfinite_real_of: "isfinite x \<Longrightarrow> x = Finite (real_of x)"
  by (cases x) simp_all

lemma fold_fadd_exact:
  "(\<forall>j<n. f j = Finite (g j)) \<Longrightarrow> (\<forall>j<n. representable (a + (\<Sum>k<Suc j. g k))) \<Longrightarrow>
   fold (\<lambda>j s. fadd s (f j)) [0..<n] (Finite a) = Finite (a + (\<Sum>j<n. g j))"
proof (induction n)
  case 0
  then show ?case by simp
next
  case (Suc n)
  then have IH: "fold (\<lambda>j s. fadd s (f j)) [0..<n] (Finite a) = Finite (a + (\<Sum>j<n. g j))"
    by simp
  have r: "round_real (a + (\<Sum>k<Suc n. g k)) = Finite (a + (\<Sum>k<Suc n. g k))"
    using Suc.prems(2) by (simp add: representable_def)
  have fn: "f n = Finite (g n)" using Suc.prems(1) by simp
  show ?case using r by (simp add: IH fn add.assoc)
qed

lemma row_sum_exact:
  assumes "n = n_columns m"
    "\<forall>j<n. isfinite (at_const m i j)" "\<forall>j<n. isfinite (result ! j)"
    "\<forall>j<n. representable (real_of (at_const m i j) * real_of (result ! j)) \<and>
           representable (row_dot m result i (Suc j))"
  shows "row_sum m result n i = Finite (row_dot m result i n)"
proof -
  have p: "\<forall>j<n. fmul (at_const m i j) (result ! j)
             = Finite (real_of (at_const m i j) * real_of (result ! j))"
  proof (intro allI impI)
    fix j assume j: "j < n"
    obtain x where x: "at_const m i j = Finite x"
      using assms(2) j by (cases "at_const m i j") auto
    obtain y where y: "result ! j = Finite y"
      using assms(3) j by (cases "result ! j") auto
    have "representable (real_of (at_const m i j) * real_of (result ! j))"
      using assms(4) j by simp
    then have "round_real (x * y) = Finite (x * y)"
      by (simp add: representable_def x y)
    then show "fmul (at_const m i j) (result ! j)
             = Finite (real_of (at_const m i j) * real_of (result ! j))"
      by (simp add: x y)
  qed
  have s: "\<forall>j<n. representable (0 + (\<Sum>k<Suc j. real_of (at_const m i k) * real_of (result ! k)))"
    using assms(4) by (simp add: row_dot_def)
  from fold_fadd_exact[OF p s] show ?thesis by (simp add: row_sum_def row_dot_def)
qed

lemma ErrorEstimate_exact:
  assumes "is_valid m" "length equal = n_rows m" "length result = n_columns m"
    "\<forall>i<n_rows m. \<forall>j<n_columns m. isfinite (at_const m i j)"
    "\<forall>x\<in>set equal. isfinite x" "\<forall>x\<in>set result. isfinite x"
    "no_rounding m equal result"
  shows "ErrorEstimate m equal result = Finite (total_residual m equal result (n_rows m))"
proof -
  have summand: "\<forall>i<n_rows m. fabs (fsub (row_sum m result (n_columns m) i) (equal ! i))
                = Finite \<bar>residual m equal result i\<bar>"
  proof (intro allI impI)
    fix i assume i: "i < n_rows m"
    have rf: "\<forall>j<n_columns m. isfinite (result ! j)" using assms(3,6) by simp
    have cf: "\<forall>j<n_columns m. isfinite (at_const m i j)" using assms(4) i by simp
    have nr: "\<forall>j<n_columns m.
           representable (real_of (at_const m i j) * real_of (result ! j)) \<and>
           representable (row_dot m result i (Suc j))"
      using assms(7) i by (simp add: no_rounding_def)
    have rs: "row_sum m result (n_columns m) i = Finite (row_dot m result i (n_columns m))"
      by (rule row_sum_exact[OF refl cf rf nr])
    have "isfinite (equal ! i)" using assms(2,5) i by simp
    then have e: "equal ! i = Finite (real_of (equal ! i))" by (rule isfinite_real_of)
    have "representable (residual m equal result i)"
      using assms(7) i by (simp add: no_rounding_def)
    then have d: "round_real (row_dot m result i (n_columns m) - real_of (equal ! i))
                = Finite (residual m equal result i)"
      by (simp add: representable_def residual_def)
    show "fabs (fsub (row_sum m result (n_columns m) i) (equal ! i))
                = Finite \<bar>residual m equal result i\<bar>"
      by (subst e) (simp add: rs fsub_def d)
  qed
  have sums: "\<forall>i<n_rows m. representable (0 + (\<Sum>k<Suc i. \<bar>residual m equal result k\<bar>))"
    using assms(7) by (simp add: no_rounding_def total_residual_def)
  show ?thesis
    using fold_fadd_exact[OF summand sums] assms(1,2,3)
    by (simp add: ErrorEstimate_def size_of_def total_residual_def)
qed


text \<open>
  Claim C7, as amended. \<open>ErrorEstimate\<close> returns NaN when the matrix is not valid,
  when the right-hand side has a length other than the number of rows, or when the
  solution has a length other than the number of columns. In every case its result
  is NaN or not negative (it can be infinite). When the cells, the right-hand side
  and the solution are finite and no product, partial sum or difference of the two
  loops is rounded, the result is the sum over the rows \<open>i\<close> of
  \<open>|\<Sum>\<^sub>j matrix(i,j) * solution[j] - equal[i]|\<close>.
\<close>

theorem ErrorEstimate_rounded_residual:
  "(\<not> is_valid m \<or> length equal \<noteq> n_rows m \<or> length result \<noteq> n_columns m
      \<longrightarrow> ErrorEstimate m equal result = NaN) \<and>
   (ErrorEstimate m equal result = NaN \<or> fge (ErrorEstimate m equal result) (Finite 0)) \<and>
   (is_valid m \<and> length equal = n_rows m \<and> length result = n_columns m \<and>
    (\<forall>i<n_rows m. \<forall>j<n_columns m. isfinite (at_const m i j)) \<and>
    (\<forall>x\<in>set equal. isfinite x) \<and> (\<forall>x\<in>set result. isfinite x) \<and>
    no_rounding m equal result
      \<longrightarrow> ErrorEstimate m equal result
            = Finite (\<Sum>i<n_rows m. \<bar>(\<Sum>j<n_columns m. real_of (at_const m i j) * real_of (result ! j))
                                      - real_of (equal ! i)\<bar>))"
proof (intro conjI impI)
  assume "\<not> is_valid m \<or> length equal \<noteq> n_rows m \<or> length result \<noteq> n_columns m"
  then show "ErrorEstimate m equal result = NaN"
    by (auto simp: ErrorEstimate_def size_of_def)
next
  show "ErrorEstimate m equal result = NaN \<or> fge (ErrorEstimate m equal result) (Finite 0)"
    by (rule ErrorEstimate_nonneg_or_NaN)
next
  assume h: "is_valid m \<and> length equal = n_rows m \<and> length result = n_columns m \<and>
    (\<forall>i<n_rows m. \<forall>j<n_columns m. isfinite (at_const m i j)) \<and>
    (\<forall>x\<in>set equal. isfinite x) \<and> (\<forall>x\<in>set result. isfinite x) \<and>
    no_rounding m equal result"
  then have "ErrorEstimate m equal result = Finite (total_residual m equal result (n_rows m))"
    using ErrorEstimate_exact[of m equal result] by blast
  then show "ErrorEstimate m equal result
            = Finite (\<Sum>i<n_rows m. \<bar>(\<Sum>j<n_columns m. real_of (at_const m i j) * real_of (result ! j))
                                      - real_of (equal ! i)\<bar>)"
    by (simp add: total_residual_def residual_def row_dot_def)
qed

theorem ErrorEstimate_rounded_residual_witness:
  "ErrorEstimate (Matrix_new 2 2) [Finite 1] [Finite 1, Finite 2] = NaN \<and>
   ErrorEstimate (finite_matrix 2 2 [[0, 1], [1, 0]]) [Finite 7, Finite 3] [Finite 2, Finite 7]
     = Finite 1 \<and>
   fge (ErrorEstimate (finite_matrix 2 2 [[0, 1], [1, 0]]) [Finite 7, Finite 3] [Finite 2, Finite 7])
     (Finite 0)"
proof -
  let ?m = "finite_matrix 2 2 [[0, 1], [1, 0]]"
  let ?e = "[Finite 7, Finite 3]"
  let ?r = "[Finite 2, Finite 7]"
  have rep: "representable 0" "representable 1" "representable 2" "representable 7"
    "representable (- 1)"
    by code_simp+
  have nr: "no_rounding ?m ?e ?r"
    using rep
    by (simp add: no_rounding_def row_dot_def residual_def total_residual_def finite_matrix_def
          at_const_def All_less_Suc numeral_2_eq_2 lessThan_Suc)
  have v: "is_valid ?m" by (simp add: is_valid_def)
  have c: "\<forall>i<n_rows ?m. \<forall>j<n_columns ?m. isfinite (at_const ?m i j)"
    by (simp add: finite_matrix_def at_const_def All_less_Suc numeral_2_eq_2)
  have a: "ErrorEstimate (Matrix_new 2 2) [Finite 1] [Finite 1, Finite 2] = NaN"
    using ErrorEstimate_rounded_residual
      [of "Matrix_new 2 2" "[Finite 1]" "[Finite 1, Finite 2]"]
    by (simp add: Matrix_new_def)
  have b: "ErrorEstimate ?m ?e ?r = Finite 1"
    using ErrorEstimate_rounded_residual [of ?m ?e ?r] v c nr
    by (simp add: finite_matrix_def at_const_def numeral_2_eq_2 lessThan_Suc)
  from a b show ?thesis by simp
qed

text \<open>
  The claim as stated fails on finite values when a product overflows: with the
  cells \<open>[[2\<^sup>1\<^sup>6\<^sup>3\<^sup>8\<^sup>3, 2\<^sup>1\<^sup>6\<^sup>3\<^sup>8\<^sup>3], [0, 0]]\<close>, the right-hand side \<open>[0, 0]\<close> and the solution
  \<open>[2, -2]\<close> the first row sum is \<open>\<infinity> + (-\<infinity>)\<close>, and the result is NaN, not the sum 0.
\<close>

theorem ErrorEstimate_overflow_counterexample:
  "is_valid (finite_matrix 2 2 [[pow2 max_exponent, pow2 max_exponent], [0, 0]]) \<and>
   representable (pow2 max_exponent) \<and>
   list_all (list_all isfinite)
     (cell (finite_matrix 2 2 [[pow2 max_exponent, pow2 max_exponent], [0, 0]])) \<and>
   list_all isfinite [Finite 0, Finite 0] \<and> list_all isfinite [Finite 2, Finite (- 2)] \<and>
   ErrorEstimate (finite_matrix 2 2 [[pow2 max_exponent, pow2 max_exponent], [0, 0]])
     [Finite 0, Finite 0] [Finite 2, Finite (- 2)] = NaN"
  using round_real_twice_largest_power representable_largest_power
  by (simp add: ErrorEstimate_def size_of_def is_valid_def finite_matrix_def row_sum_def
        at_const_def fsub_def numeral_2_eq_2)


text \<open>
  Rounding alone changes the value as well: \<open>1 + 2\<^sup>-\<^sup>6\<^sup>5\<close> is rounded to 1, so that the
  result is 0 where the sum of the claim is \<open>2\<^sup>-\<^sup>6\<^sup>5\<close>.
\<close>

lemma ErrorEstimate_rounded_sum:
  "ErrorEstimate (finite_matrix 2 2 [[1, 1 / 2 ^ 65], [0, 0]]) [Finite 1, Finite 0]
     [Finite 1, Finite 1] = Finite 0 \<and>
   total_residual (finite_matrix 2 2 [[1, 1 / 2 ^ 65], [0, 0]]) [Finite 1, Finite 0]
     [Finite 1, Finite 1] 2 = 1 / 2 ^ 65 \<and>
   representable (1 / 2 ^ 65)"
proof -
  have "ErrorEstimate (finite_matrix 2 2 [[1, 1 / 2 ^ 65], [0, 0]]) [Finite 1, Finite 0]
     [Finite 1, Finite 1] = Finite 0"
    by code_simp
  moreover have "total_residual (finite_matrix 2 2 [[1, 1 / 2 ^ 65], [0, 0]]) [Finite 1, Finite 0]
     [Finite 1, Finite 1] 2 = 1 / 2 ^ 65"
    by (simp add: total_residual_def residual_def row_dot_def finite_matrix_def at_const_def
          numeral_2_eq_2 lessThan_Suc)
  moreover have "representable (1 / 2 ^ 65)" by code_simp
  ultimately show ?thesis by simp
qed

section \<open>Elimination and rescaling\<close>

lemma eliminate_append:
  "eliminate n (ps @ qs) st =
     (case eliminate n ps st of
        Inl e \<Rightarrow> Inl e
      | Inr None \<Rightarrow> Inr None
      | Inr (Some st') \<Rightarrow> eliminate n qs st')"
proof (induction ps arbitrary: st)
  case Nil
  then show ?case by simp
next
  case (Cons p ps)
  obtain column row where p: "p = (column, row)" by (cases p)
  show ?case
    by (simp add: p Cons.IH split: sum.splits option.splits)
qed

lemma eliminate_step_not_finite:
  "row \<noteq> column \<Longrightarrow> \<not> isfinite (scalar_of m row column) \<Longrightarrow>
   eliminate_step n column row (m, e) = Inr None"
  by (simp add: eliminate_step_def)

lemma eliminate_not_finite:
  assumes "eliminate n ps st = Inr (Some (m1, e1))" "row \<noteq> column"
    "\<not> isfinite (scalar_of m1 row column)"
  shows "eliminate n (ps @ (column, row) # qs) st = Inr None"
  using assms by (simp add: eliminate_append eliminate_step_not_finite)

lemma rescale_not_finite:
  "\<forall>i\<in>set is. i < length equal \<and> i < length result \<Longrightarrow>
   \<exists>i\<in>set is. \<not> isfinite (value_of m equal i) \<Longrightarrow>
   rescale m equal is result = Inr None"
  by (induction "is" arbitrary: result) auto

lemma rescale_untouched:
  "rescale m equal is result = Inr (Some r) \<Longrightarrow>
   length r = length result \<and> (\<forall>j. j \<notin> set is \<longrightarrow> r ! j = result ! j)"
proof (induction "is" arbitrary: result)
  case Nil
  then show ?case by simp
next
  case (Cons i "is")
  from Cons.prems have r: "rescale m equal is (result[i := value_of m equal i]) = Inr (Some r)"
    by (simp split: if_splits)
  from Cons.IH[OF r] show ?case by auto
qed

lemma rescale_finite:
  "rescale m equal is result = Inr (Some r) \<Longrightarrow> i \<in> set is \<Longrightarrow> isfinite (r ! i)"
proof (induction "is" arbitrary: result)
  case Nil
  then show ?case by simp
next
  case (Cons k "is")
  from Cons.prems(1) have r: "rescale m equal is (result[k := value_of m equal k]) = Inr (Some r)"
    and f: "isfinite (value_of m equal k)" and len: "k < length result"
    by (simp_all split: if_splits)
  show ?case
  proof (cases "i \<in> set is")
    case True
    then show ?thesis using Cons.IH[OF r] by simp
  next
    case False
    with Cons.prems(2) have ik: "i = k" by simp
    from rescale_untouched[OF r] False ik have "r ! i = (result[k := value_of m equal k]) ! k"
      by simp
    then show ?thesis using f len by simp
  qed
qed

lemma gauss_jordan_result:
  assumes "gauss_jordan n m e = Inr xs"
  shows "xs = [] \<or> (length xs = n \<and> (\<forall>x\<in>set xs. isfinite x))"
proof (cases "xs = []")
  case True
  then show ?thesis by simp
next
  case False
  with assms obtain m' e' where
    r: "rescale m' e' [0..<n] (replicate n (Finite 0)) = Inr (Some xs)"
    by (auto simp: gauss_jordan_def split: sum.splits option.splits)
  have len: "length xs = n" using rescale_untouched[OF r] by simp
  have "isfinite (xs ! i)" if "i < n" for i
    using rescale_finite[OF r, of i] that by simp
  then have "\<forall>x\<in>set xs. isfinite x" using len by (auto simp: in_set_conv_nth)
  with len show ?thesis by simp
qed

lemma Solve_result:
  assumes "Solve m equal epsilon = Inr xs"
  shows "xs = [] \<or> (length xs = n_columns m \<and> (\<forall>x\<in>set xs. isfinite x))"
proof (cases "xs = []")
  case True
  then show ?thesis by simp
next
  case False
  with assms obtain m' e' where "gauss_jordan (n_columns m) m' e' = Inr xs"
    by (auto simp: Solve_def split: sum.splits option.splits)
  from gauss_jordan_result[OF this] show ?thesis .
qed

lemma reduce_rows_length:
  "reduce_rows matrix equal li n rs (nm, ne) = Inr (nm', ne') \<Longrightarrow> length ne' = length ne"
proof (induction rs arbitrary: nm ne)
  case Nil
  then show ?case by simp
next
  case (Cons r rs)
  then show ?case by (auto simp: Let_def split: if_splits)
qed

lemma square_system_length:
  assumes "square_system m equal epsilon = Inr (Some (m0, e0))"
  shows "n_columns m \<le> length e0"
proof (cases "is_diagonal_nonzero m epsilon")
  case True
  with assms show ?thesis
    by (auto simp: square_system_def size_of_def is_valid_def split: if_splits)
next
  case False
  with assms obtain li where
    "reduce_rows m equal li (n_columns m) [0..<n_columns m]
       (Matrix_new (n_columns m) (n_columns m), replicate (n_columns m) (Finite 0)) = Inr (m0, e0)"
    by (auto simp: square_system_def size_of_def pivot_branch_def
             split: if_splits option.splits sum.splits)
  from reduce_rows_length[OF this] show ?thesis by simp
qed

lemma assign_dims [simp]:
  "n_rows (assign m r c v) = n_rows m" "n_columns (assign m r c v) = n_columns m"
  by (simp_all add: assign_def)

lemma subtract_row_dims [simp]:
  "n_rows (subtract_row row column scalar ks m) = n_rows m"
  "n_columns (subtract_row row column scalar ks m) = n_columns m"
  by (induction ks arbitrary: m) simp_all

lemma eliminate_step_dims:
  assumes "eliminate_step k column row (m, e) = Inr (Some (m', e'))"
  shows "n_rows m' = n_rows m \<and> n_columns m' = n_columns m \<and> length e' = length e"
  using assms by (auto simp: eliminate_step_def split: if_splits)

lemma eliminate_dims:
  "eliminate k ps (m, e) = Inr (Some (m', e')) \<Longrightarrow>
   n_rows m' = n_rows m \<and> n_columns m' = n_columns m \<and> length e' = length e"
proof (induction ps arbitrary: m e)
  case Nil
  then show ?case by simp
next
  case (Cons p ps)
  obtain column row where p: "p = (column, row)" by (cases p)
  from Cons.prems obtain m1 e1 where
    s: "eliminate_step k column row (m, e) = Inr (Some (m1, e1))"
    and r: "eliminate k ps (m1, e1) = Inr (Some (m', e'))"
    by (auto simp: p split: sum.splits option.splits)
  from Cons.IH[OF r] eliminate_step_dims[OF s] show ?case by simp
qed

text \<open>
  Claim C6. Let \<open>(m0, e0)\<close> be the system that reaches the elimination. If at some
  pair \<open>(column, row)\<close> of the loops, with \<open>row \<noteq> column\<close>, the scalar
  \<open>matrix(row,column) / matrix(column,column)\<close> computed on the state left by the pairs
  before it is not finite, \<open>Solve\<close> returns the empty sequence. If after the
  elimination a quotient \<open>equal[i] / matrix(i,i)\<close> is not finite, \<open>Solve\<close> returns the
  empty sequence. And whatever \<open>Solve\<close> returns is either empty or has one finite
  entry for each column: no partial solution is returned.
\<close>

theorem Solve_no_partial_result:
  "(square_system m equal epsilon = Inr (Some (m0, e0)) \<and>
    elimination_order (n_columns m) = ps @ (column, row) # qs \<and> row \<noteq> column \<and>
    eliminate (n_columns m) ps (m0, e0) = Inr (Some (m1, e1)) \<and>
    \<not> isfinite (scalar_of m1 row column)
      \<longrightarrow> Solve m equal epsilon = Inr []) \<and>
   (square_system m equal epsilon = Inr (Some (m0, e0)) \<and>
    eliminate (n_columns m) (elimination_order (n_columns m)) (m0, e0) = Inr (Some (m2, e2)) \<and>
    i < n_columns m \<and> \<not> isfinite (value_of m2 e2 i)
      \<longrightarrow> Solve m equal epsilon = Inr []) \<and>
   (Solve m equal epsilon = Inr xs
      \<longrightarrow> xs = [] \<or> (length xs = n_columns m \<and> (\<forall>x\<in>set xs. isfinite x)))"
proof (intro conjI impI)
  assume h: "square_system m equal epsilon = Inr (Some (m0, e0)) \<and>
    elimination_order (n_columns m) = ps @ (column, row) # qs \<and> row \<noteq> column \<and>
    eliminate (n_columns m) ps (m0, e0) = Inr (Some (m1, e1)) \<and>
    \<not> isfinite (scalar_of m1 row column)"
  then have "eliminate (n_columns m) (elimination_order (n_columns m)) (m0, e0) = Inr None"
    using eliminate_not_finite[of "n_columns m" ps "(m0, e0)" m1 e1 row column qs] by simp
  with h show "Solve m equal epsilon = Inr []"
    by (simp add: Solve_def gauss_jordan_def)
next
  assume h: "square_system m equal epsilon = Inr (Some (m0, e0)) \<and>
    eliminate (n_columns m) (elimination_order (n_columns m)) (m0, e0) = Inr (Some (m2, e2)) \<and>
    i < n_columns m \<and> \<not> isfinite (value_of m2 e2 i)"
  then have "n_columns m \<le> length e0" using square_system_length by blast
  moreover have "length e2 = length e0" using h eliminate_dims by blast
  ultimately have "\<forall>i\<in>set [0..<n_columns m].
      i < length e2 \<and> i < length (replicate (n_columns m) (Finite (0::real)))"
    by simp
  moreover have "\<exists>i\<in>set [0..<n_columns m]. \<not> isfinite (value_of m2 e2 i)"
    using h by auto
  ultimately have "rescale m2 e2 [0..<n_columns m] (replicate (n_columns m) (Finite 0)) = Inr None"
    by (rule rescale_not_finite)
  with h show "Solve m equal epsilon = Inr []"
    by (simp add: Solve_def gauss_jordan_def)
next
  assume "Solve m equal epsilon = Inr xs"
  then show "xs = [] \<or> (length xs = n_columns m \<and> (\<forall>x\<in>set xs. isfinite x))"
    by (rule Solve_result)
qed

theorem Solve_no_partial_result_witness:
  "Solve (finite_matrix 2 2 [[1, 1], [1, 1]])
     [Finite 1, Finite 2] magnitude_zero = Inr [] \<and>
   Solve (finite_matrix 1 1 [[1]]) [NaN] magnitude_zero = Inr [] \<and>
   Solve (finite_matrix 2 2 [[1, 0], [0, 1]])
     [Finite 3, Finite 5] magnitude_zero = Inr [Finite 3, Finite 5] \<and>
   ([Finite 3, Finite 5] = [] \<or> length [Finite 3, Finite 5] = (2::nat) \<and> (\<forall>x\<in>set [Finite 3, Finite 5]. isfinite x))"
proof -
  let ?A = "finite_matrix 2 2 [[1, 1], [1, 1]]"
  let ?A1 = "finite_matrix 2 2 [[1, 1], [0, 0]]"
  let ?B = "finite_matrix 1 1 [[1]]"
  let ?I = "finite_matrix 2 2 [[1, 0], [0, 1]]"
  have a1: "square_system ?A [Finite 1, Finite 2] magnitude_zero = Inr (Some (?A, [Finite 1, Finite 2]))"
    by code_simp
  have a2: "elimination_order (n_columns ?A) = [(0, 0), (0, 1)] @ (1, 0) # [(1, 1)]"
    by code_simp
  have a3: "eliminate (n_columns ?A) [(0, 0), (0, 1)] (?A, [Finite 1, Finite 2])
              = Inr (Some (?A1, [Finite 1, Finite 1]))"
    by code_simp
  have a4: "\<not> isfinite (scalar_of ?A1 0 1)" by code_simp
  have a: "Solve ?A [Finite 1, Finite 2] magnitude_zero = Inr []"
    using Solve_no_partial_result
      [where m = ?A and equal = "[Finite 1, Finite 2]" and epsilon = magnitude_zero
         and ?m0.0 = ?A and ?e0.0 = "[Finite 1, Finite 2]" and ps = "[(0, 0), (0, 1)]"
         and column = 1 and row = 0 and qs = "[(1, 1)]" and ?m1.0 = ?A1
         and ?e1.0 = "[Finite 1, Finite 1]"]
      a1 a2 a3 a4 by simp
  have b1: "square_system ?B [NaN] magnitude_zero = Inr (Some (?B, [NaN]))" by code_simp
  have b2: "eliminate (n_columns ?B) (elimination_order (n_columns ?B)) (?B, [NaN])
              = Inr (Some (?B, [NaN]))"
    by code_simp
  have b3: "\<not> isfinite (value_of ?B [NaN] 0)" by code_simp
  have b: "Solve ?B [NaN] magnitude_zero = Inr []"
    using Solve_no_partial_result
      [where m = ?B and equal = "[NaN]" and epsilon = magnitude_zero
         and ?m0.0 = ?B and ?e0.0 = "[NaN]" and ?m2.0 = ?B and ?e2.0 = "[NaN]" and i = 0]
      b1 b2 b3 by simp
  have c1: "Solve ?I [Finite 3, Finite 5] magnitude_zero = Inr [Finite 3, Finite 5]"
    by code_simp
  have c: "[Finite 3, Finite 5] = [] \<or>
           length [Finite 3, Finite 5] = (2::nat) \<and> (\<forall>x\<in>set [Finite 3, Finite 5]. isfinite x)"
    using Solve_no_partial_result
      [where m = ?I and equal = "[Finite 3, Finite 5]" and epsilon = magnitude_zero
         and xs = "[Finite 3, Finite 5]"]
      c1 by simp
  from a b c1 c show ?thesis by blast
qed


section \<open>Overdetermined systems\<close>

lemma at_ref_leading:
  "r < n_columns m \<Longrightarrow> n_columns m \<le> n_rows m \<Longrightarrow> at_ref (leading_rows m) r c = at_ref m r c"
  by (simp add: at_ref_def leading_rows_def)

lemma assign_leading:
  "r < n_columns m \<Longrightarrow> n_columns m \<le> n_rows m \<Longrightarrow>
   leading_rows (assign m r c v) = assign (leading_rows m) r c v"
  by (simp add: assign_def leading_rows_def take_update_swap)

lemma subtract_row_leading:
  "row < n_columns m \<Longrightarrow> column < n_columns m \<Longrightarrow> n_columns m \<le> n_rows m \<Longrightarrow>
   leading_rows (subtract_row row column scalar ks m)
     = subtract_row row column scalar ks (leading_rows m)"
proof (induction ks arbitrary: m)
  case Nil
  then show ?case by simp
next
  case (Cons k ks)
  let ?v = "fsub (at_ref m row k) (fmul (at_ref m column k) scalar)"
  have "leading_rows (subtract_row row column scalar ks (assign m row k ?v))
      = subtract_row row column scalar ks (leading_rows (assign m row k ?v))"
    using Cons.prems by (intro Cons.IH) simp_all
  then show ?case using Cons.prems by (simp add: assign_leading at_ref_leading)
qed

lemma scalar_of_leading:
  "row < n_columns m \<Longrightarrow> column < n_columns m \<Longrightarrow> n_columns m \<le> n_rows m \<Longrightarrow>
   scalar_of (leading_rows m) row column = scalar_of m row column"
  by (simp add: scalar_of_def at_ref_leading)

lemma eliminate_step_leading:
  assumes "row < n_columns m" "column < n_columns m" "n_columns m \<le> n_rows m"
    "n_columns m \<le> length e"
  shows "eliminate_step k column row (leading_rows m, take (n_columns m) e)
       = leading_state (n_columns m) (eliminate_step k column row (m, e))"
  using assms
  by (simp add: eliminate_step_def leading_state_def scalar_of_leading subtract_row_leading
        take_update_swap)

lemma eliminate_leading:
  assumes "\<forall>(column, row)\<in>set ps. row < n_columns m \<and> column < n_columns m"
    "n_columns m \<le> n_rows m" "n_columns m \<le> length e"
  shows "eliminate k ps (leading_rows m, take (n_columns m) e)
       = leading_state (n_columns m) (eliminate k ps (m, e))"
  using assms
proof (induction ps arbitrary: m e)
  case Nil
  then show ?case by (simp add: leading_state_def)
next
  case (Cons p ps)
  obtain column row where p: "p = (column, row)" by (cases p)
  have rc: "row < n_columns m" "column < n_columns m" using Cons.prems(1) p by auto
  note step = eliminate_step_leading[OF rc Cons.prems(2,3), of k]
  show ?case
  proof (cases "eliminate_step k column row (m, e)")
    case (Inl x)
    then show ?thesis using step by (simp add: p leading_state_def)
  next
    case (Inr o1)
    show ?thesis
    proof (cases o1)
      case None
      then show ?thesis using step Inr by (simp add: p leading_state_def)
    next
      case (Some st)
      obtain m' e' where st: "st = (m', e')" by (cases st)
      have s: "eliminate_step k column row (m, e) = Inr (Some (m', e'))"
        using Inr Some st by simp
      note d = eliminate_step_dims[OF s]
      have "eliminate k ps (leading_rows m', take (n_columns m') e')
          = leading_state (n_columns m') (eliminate k ps (m', e'))"
        using Cons.prems d by (intro Cons.IH) auto
      then show ?thesis using step s d by (simp add: p leading_state_def)
    qed
  qed
qed

lemma eliminate_no_error:
  "\<forall>(column, row)\<in>set ps. row < length e \<and> column < length e \<Longrightarrow>
   eliminate k ps (m, e) \<noteq> Inl x"
proof (induction ps arbitrary: m e)
  case Nil
  then show ?case by simp
next
  case (Cons p ps)
  obtain column row where p: "p = (column, row)" by (cases p)
  have rc: "row < length e" "column < length e" using Cons.prems p by auto
  show ?case
  proof (cases "eliminate_step k column row (m, e)")
    case (Inl y)
    then show ?thesis using rc by (auto simp: eliminate_step_def split: if_splits)
  next
    case (Inr o1)
    show ?thesis
    proof (cases o1)
      case None
      then show ?thesis using Inr by (simp add: p)
    next
      case (Some st)
      obtain m' e' where st: "st = (m', e')" by (cases st)
      have s: "eliminate_step k column row (m, e) = Inr (Some (m', e'))"
        using Inr Some st by simp
      have "eliminate k ps (m', e') \<noteq> Inl x"
        using Cons.prems eliminate_step_dims[OF s] by (intro Cons.IH) auto
      then show ?thesis using s by (simp add: p)
    qed
  qed
qed

lemma value_of_leading:
  "i < n_columns m \<Longrightarrow> n_columns m \<le> n_rows m \<Longrightarrow>
   value_of (leading_rows m) (take (n_columns m) e) i = value_of m e i"
  by (simp add: value_of_def at_ref_leading)

lemma rescale_leading:
  "\<forall>i\<in>set is. i < n_columns m \<Longrightarrow> n_columns m \<le> n_rows m \<Longrightarrow> n_columns m \<le> length e \<Longrightarrow>
   rescale (leading_rows m) (take (n_columns m) e) is result = rescale m e is result"
  by (induction "is" arbitrary: result) (simp_all add: value_of_leading)

lemma rescale_no_error:
  "\<forall>i\<in>set is. i < length e \<and> i < length result \<Longrightarrow> rescale m e is result \<noteq> Inl x"
  by (induction "is" arbitrary: result) simp_all

lemma elimination_order_bound:
  "\<forall>(column, row)\<in>set (elimination_order n). row < n \<and> column < n"
  by (auto simp: elimination_order_def)

lemma gauss_jordan_leading:
  assumes "n_columns m \<le> n_rows m" "n_columns m \<le> length e"
  shows "gauss_jordan (n_columns m) (leading_rows m) (take (n_columns m) e)
       = gauss_jordan (n_columns m) m e"
proof -
  let ?n = "n_columns m"
  have el: "eliminate ?n (elimination_order ?n) (leading_rows m, take ?n e)
          = leading_state ?n (eliminate ?n (elimination_order ?n) (m, e))"
    using elimination_order_bound[of ?n] assms by (intro eliminate_leading) auto
  show ?thesis
  proof (cases "eliminate ?n (elimination_order ?n) (m, e)")
    case (Inl x)
    then show ?thesis using el by (simp add: gauss_jordan_def leading_state_def)
  next
    case (Inr o1)
    show ?thesis
    proof (cases o1)
      case None
      then show ?thesis using el Inr by (simp add: gauss_jordan_def leading_state_def)
    next
      case (Some st)
      obtain m' e' where st: "st = (m', e')" by (cases st)
      have s: "eliminate ?n (elimination_order ?n) (m, e) = Inr (Some (m', e'))"
        using Inr Some st by simp
      note d = eliminate_dims[OF s]
      have "rescale (leading_rows m') (take (n_columns m') e') [0..<?n] (replicate ?n (Finite 0))
          = rescale m' e' [0..<?n] (replicate ?n (Finite 0))"
        using d assms by (intro rescale_leading) auto
      then show ?thesis using el s d by (simp add: gauss_jordan_def leading_state_def)
    qed
  qed
qed

lemma gauss_jordan_no_error:
  assumes "n \<le> length e"
  shows "gauss_jordan n m e \<noteq> Inl x"
proof -
  have 1: "eliminate n (elimination_order n) (m, e) \<noteq> Inl x"
    using elimination_order_bound[of n] assms by (intro eliminate_no_error) auto
  have 2: "rescale m' e' [0..<n] (replicate n (Finite 0)) \<noteq> Inl x"
    if "eliminate n (elimination_order n) (m, e) = Inr (Some (m', e'))" for m' e'
    using eliminate_dims[OF that] assms by (intro rescale_no_error) auto
  show ?thesis
    using 1 2 by (auto simp: gauss_jordan_def split: sum.splits option.splits)
qed

lemma is_diagonal_nonzero_leading:
  "is_diagonal_nonzero m epsilon \<Longrightarrow> is_diagonal_nonzero (leading_rows m) epsilon"
  by (auto simp: is_diagonal_nonzero_def is_valid_def leading_rows_def list_all_iff split: if_splits)

lemma Solve_leading:
  assumes "is_diagonal_nonzero m epsilon" "length equal = n_rows m"
  shows "Solve (leading_rows m) (take (n_columns m) equal) epsilon = Solve m equal epsilon"
    and "Solve m equal epsilon \<noteq> Inl x"
proof -
  have v: "is_valid m" using assms(1) by (simp add: is_diagonal_nonzero_def split: if_splits)
  then have le: "n_columns m \<le> n_rows m" "0 < n_columns m"
    by (auto simp: is_valid_def split: if_splits)
  have s1: "Solve m equal epsilon = gauss_jordan (n_columns m) m equal"
    using assms v by (simp add: Solve_def square_system_def size_of_def)
  have v': "is_valid (leading_rows m)" using le by (simp add: is_valid_def leading_rows_def)
  have s2: "Solve (leading_rows m) (take (n_columns m) equal) epsilon
          = gauss_jordan (n_columns m) (leading_rows m) (take (n_columns m) equal)"
    using is_diagonal_nonzero_leading[OF assms(1)] v' assms(2) le
    by (simp add: Solve_def square_system_def size_of_def leading_rows_def)
  show "Solve (leading_rows m) (take (n_columns m) equal) epsilon = Solve m equal epsilon"
    using s1 s2 gauss_jordan_leading[of m equal] le assms(2) by simp
  show "Solve m equal epsilon \<noteq> Inl x"
    using s1 gauss_jordan_no_error[of "n_columns m" equal m x] le assms(2) by simp
qed


lemma eliminate_None_scalar:
  "eliminate n ps st = Inr None \<Longrightarrow>
   \<exists>ps1 column row qs m1 e1.
     ps = ps1 @ (column, row) # qs \<and> row \<noteq> column \<and>
     eliminate n ps1 st = Inr (Some (m1, e1)) \<and> \<not> isfinite (scalar_of m1 row column)"
proof (induction ps arbitrary: st)
  case Nil
  then show ?case by simp
next
  case (Cons p ps)
  obtain column row where p: "p = (column, row)" by (cases p)
  obtain m e where st: "st = (m, e)" by (cases st)
  show ?case
  proof (cases "eliminate_step n column row st")
    case (Inl x)
    then show ?thesis using Cons.prems by (simp add: p)
  next
    case (Inr o1)
    show ?thesis
    proof (cases o1)
      case None
      then have "row \<noteq> column \<and> \<not> isfinite (scalar_of m row column)"
        using Inr by (auto simp: eliminate_step_def st split: if_splits)
      then have "p # ps = [] @ (column, row) # ps \<and> row \<noteq> column \<and>
           eliminate n [] st = Inr (Some (m, e)) \<and> \<not> isfinite (scalar_of m row column)"
        by (simp add: p st)
      then show ?thesis by blast
    next
      case (Some st')
      then have "eliminate n ps st' = Inr None" using Cons.prems Inr by (simp add: p)
      from Cons.IH[OF this] obtain ps1 c r qs m1 e1 where
        d: "ps = ps1 @ (c, r) # qs" and ne: "r \<noteq> c"
        and el: "eliminate n ps1 st' = Inr (Some (m1, e1))"
        and nf: "\<not> isfinite (scalar_of m1 r c)"
        by blast
      have "p # ps = (p # ps1) @ (c, r) # qs" using d by simp
      moreover have "eliminate n (p # ps1) st = Inr (Some (m1, e1))"
        using el Inr Some by (simp add: p)
      ultimately show ?thesis using ne nf by blast
    qed
  qed
qed

lemma rescale_None_value:
  "rescale m e is result = Inr None \<Longrightarrow> \<exists>i\<in>set is. \<not> isfinite (value_of m e i)"
  by (induction "is" arbitrary: result) (auto split: if_splits)

lemma gauss_jordan_empty_iff:
  assumes "0 < n" "n \<le> length e"
  shows "gauss_jordan n m e = Inr [] \<longleftrightarrow>
     (\<exists>ps column row qs m1 e1.
        elimination_order n = ps @ (column, row) # qs \<and> row \<noteq> column \<and>
        eliminate n ps (m, e) = Inr (Some (m1, e1)) \<and> \<not> isfinite (scalar_of m1 row column)) \<or>
     (\<exists>m2 e2 i.
        eliminate n (elimination_order n) (m, e) = Inr (Some (m2, e2)) \<and> i < n \<and>
        \<not> isfinite (value_of m2 e2 i))"
  (is "?L \<longleftrightarrow> ?S \<or> ?Q")
proof
  assume L: ?L
  show "?S \<or> ?Q"
  proof (cases "eliminate n (elimination_order n) (m, e)")
    case (Inl x)
    then show ?thesis using L by (simp add: gauss_jordan_def)
  next
    case (Inr o1)
    show ?thesis
    proof (cases o1)
      case None
      then have "eliminate n (elimination_order n) (m, e) = Inr None" using Inr by simp
      from eliminate_None_scalar[OF this] show ?thesis by blast
    next
      case (Some st)
      obtain m2 e2 where st: "st = (m2, e2)" by (cases st)
      have el: "eliminate n (elimination_order n) (m, e) = Inr (Some (m2, e2))"
        using Inr Some st by simp
      show ?thesis
      proof (cases "rescale m2 e2 [0..<n] (replicate n (Finite 0))")
        case (Inl x)
        then show ?thesis using L el by (simp add: gauss_jordan_def)
      next
        case r: (Inr o2)
        show ?thesis
        proof (cases o2)
          case None
          then have "rescale m2 e2 [0..<n] (replicate n (Finite 0)) = Inr None" using r by simp
          from rescale_None_value[OF this] el show ?thesis by auto
        next
          case (Some xs)
          then have rs: "rescale m2 e2 [0..<n] (replicate n (Finite 0)) = Inr (Some xs)"
            using r by simp
          then have "xs = []" using L el by (simp add: gauss_jordan_def)
          moreover have "length xs = n" using rescale_untouched[OF rs] by simp
          ultimately show ?thesis using assms(1) by simp
        qed
      qed
    qed
  qed
next
  assume "?S \<or> ?Q"
  then show ?L
  proof
    assume ?S
    then obtain ps column row qs m1 e1 where
      o: "elimination_order n = ps @ (column, row) # qs" and ne: "row \<noteq> column"
      and el: "eliminate n ps (m, e) = Inr (Some (m1, e1))"
      and nf: "\<not> isfinite (scalar_of m1 row column)"
      by blast
    have "eliminate n (elimination_order n) (m, e) = Inr None"
      unfolding o by (rule eliminate_not_finite[OF el ne nf])
    then show ?L by (simp add: gauss_jordan_def)
  next
    assume ?Q
    then obtain m2 e2 i where
      el: "eliminate n (elimination_order n) (m, e) = Inr (Some (m2, e2))"
      and i: "i < n" and nf: "\<not> isfinite (value_of m2 e2 i)"
      by blast
    have len: "length e2 = length e" using eliminate_dims[OF el] by simp
    have "rescale m2 e2 [0..<n] (replicate n (Finite 0)) = Inr None"
      using len assms(2) i nf by (intro rescale_not_finite) auto
    then show ?L using el by (simp add: gauss_jordan_def)
  qed
qed

text \<open>
  Claim C3, as amended. For a matrix of 5 rows and 4 columns whose four leading
  diagonal cells have magnitude at least \<open>epsilon\<close>, with a right-hand side of 5
  entries, \<open>Solve\<close> returns without an access out of range, and it works on the first
  four rows only: its result is the one it gives on the square system of the first
  four rows and entries. That result is the empty sequence exactly when the
  elimination on those rows computes a scalar \<open>matrix(row,column) / matrix(column,column)\<close>
  or a quotient \<open>equal[i] / matrix(i,i)\<close> that is not finite; otherwise it is a
  solution of four finite values. \<open>ErrorEstimate\<close> over all five rows is NaN or not
  negative on what \<open>Solve\<close> returns.
\<close>

theorem overdetermined_uses_leading_rows:
  assumes "size_of m = (5, 4)" "length equal = 5" "is_diagonal_nonzero m epsilon"
  shows "\<exists>xs. Solve m equal epsilon = Inr xs \<and>
              Solve (leading_rows m) (take 4 equal) epsilon = Inr xs \<and>
              (xs = [] \<longleftrightarrow>
                 (\<exists>ps column row qs m1 e1.
                    elimination_order 4 = ps @ (column, row) # qs \<and> row \<noteq> column \<and>
                    eliminate 4 ps (m, equal) = Inr (Some (m1, e1)) \<and>
                    \<not> isfinite (scalar_of m1 row column)) \<or>
                 (\<exists>m2 e2 i.
                    eliminate 4 (elimination_order 4) (m, equal) = Inr (Some (m2, e2)) \<and> i < 4 \<and>
                    \<not> isfinite (value_of m2 e2 i))) \<and>
              (xs \<noteq> [] \<longrightarrow> length xs = 4 \<and> (\<forall>x\<in>set xs. isfinite x)) \<and>
              (ErrorEstimate m equal xs = NaN \<or> fge (ErrorEstimate m equal xs) (Finite 0))"
proof -
  have dims: "n_rows m = 5" "n_columns m = 4" using assms(1) by (simp_all add: size_of_def)
  have len: "length equal = n_rows m" using assms(2) dims by simp
  have v: "is_valid m" using assms(3) by (simp add: is_diagonal_nonzero_def split: if_splits)
  obtain xs where xs: "Solve m equal epsilon = Inr xs"
    using Solve_leading(2)[OF assms(3) len] by (cases "Solve m equal epsilon") auto
  have lead: "Solve (leading_rows m) (take 4 equal) epsilon = Inr xs"
    using Solve_leading(1)[OF assms(3) len] xs dims by simp
  have gj: "Solve m equal epsilon = gauss_jordan 4 m equal"
    using assms v len dims by (simp add: Solve_def square_system_def size_of_def)
  have empty: "xs = [] \<longleftrightarrow>
                 (\<exists>ps column row qs m1 e1.
                    elimination_order 4 = ps @ (column, row) # qs \<and> row \<noteq> column \<and>
                    eliminate 4 ps (m, equal) = Inr (Some (m1, e1)) \<and>
                    \<not> isfinite (scalar_of m1 row column)) \<or>
                 (\<exists>m2 e2 i.
                    eliminate 4 (elimination_order 4) (m, equal) = Inr (Some (m2, e2)) \<and> i < 4 \<and>
                    \<not> isfinite (value_of m2 e2 i))"
    using gauss_jordan_empty_iff[of 4 equal m] assms(2) xs gj by simp
  have shape: "xs \<noteq> [] \<longrightarrow> length xs = 4 \<and> (\<forall>x\<in>set xs. isfinite x)"
    using Solve_result[OF xs] dims by auto
  have est: "ErrorEstimate m equal xs = NaN \<or> fge (ErrorEstimate m equal xs) (Finite 0)"
    by (rule ErrorEstimate_nonneg_or_NaN)
  from xs lead empty shape est show ?thesis by blast
qed


theorem overdetermined_uses_leading_rows_witness:
  "Solve fitted_system [Finite 3, Finite 2, Finite 1, Finite 1, Finite 7] magnitude_zero
     = Inr [Finite 1, Finite 1, Finite 1, Finite 1] \<and>
   Solve (leading_rows fitted_system) (take 4 [Finite 3, Finite 2, Finite 1, Finite 1, Finite 7])
     magnitude_zero
     = Inr [Finite 1, Finite 1, Finite 1, Finite 1] \<and>
   \<not> (\<exists>m2 e2 i.
        eliminate 4 (elimination_order 4)
          (fitted_system, [Finite 3, Finite 2, Finite 1, Finite 1, Finite 7]) = Inr (Some (m2, e2)) \<and>
        i < 4 \<and> \<not> isfinite (value_of m2 e2 i)) \<and>
   ErrorEstimate fitted_system [Finite 3, Finite 2, Finite 1, Finite 1, Finite 7]
     [Finite 1, Finite 1, Finite 1, Finite 1] = Finite 6"
proof -
  let ?m = "fitted_system"
  let ?e = "[Finite 3, Finite 2, Finite 1, Finite 1, Finite 7]"
  have s: "size_of ?m = (5, 4)" by code_simp
  have l: "length ?e = 5" by simp
  have d: "is_diagonal_nonzero ?m magnitude_zero" by code_simp
  have r: "Solve ?m ?e magnitude_zero = Inr [Finite 1, Finite 1, Finite 1, Finite 1]" by code_simp
  have v: "ErrorEstimate ?m ?e [Finite 1, Finite 1, Finite 1, Finite 1] = Finite 6" by code_simp
  from overdetermined_uses_leading_rows[OF s l d] obtain xs where
    1: "Solve ?m ?e magnitude_zero = Inr xs"
    and 2: "Solve (leading_rows ?m) (take 4 ?e) magnitude_zero = Inr xs"
    and 3: "xs = [] \<longleftrightarrow>
                 (\<exists>ps column row qs m1 e1.
                    elimination_order 4 = ps @ (column, row) # qs \<and> row \<noteq> column \<and>
                    eliminate 4 ps (?m, ?e) = Inr (Some (m1, e1)) \<and>
                    \<not> isfinite (scalar_of m1 row column)) \<or>
                 (\<exists>m2 e2 i.
                    eliminate 4 (elimination_order 4) (?m, ?e) = Inr (Some (m2, e2)) \<and> i < 4 \<and>
                    \<not> isfinite (value_of m2 e2 i))"
    by blast
  from 1 r have x: "xs = [Finite 1, Finite 1, Finite 1, Finite 1]" by simp
  from 3 x have "\<not> (\<exists>m2 e2 i.
        eliminate 4 (elimination_order 4) (?m, ?e) = Inr (Some (m2, e2)) \<and>
        i < 4 \<and> \<not> isfinite (value_of m2 e2 i))"
    by blast
  with r 2 x v show ?thesis by simp
qed


text \<open>
  The claim as stated fails on a system whose rows 0, 2, 3 and 4 hold the exact
  solution \<open>[1,1,1,1]\<close> and whose row 1 contradicts it. The code solves those four
  rows when they are given as a square system (in the order 4, 0, 2, 3), but on the
  five rows the leading diagonal has no zero, the elimination runs on rows 0 to 3,
  meets the scalar \<open>1/0\<close> and returns the empty sequence, on which \<open>ErrorEstimate\<close> is
  NaN.
\<close>

theorem overdetermined_consistent_counterexample:
  "size_of contradicted_system = (5, 4) \<and> is_valid contradicted_system \<and>
   row_sum contradicted_system [Finite 1, Finite 1, Finite 1, Finite 1] 4 0 = Finite 2 \<and>
   row_sum contradicted_system [Finite 1, Finite 1, Finite 1, Finite 1] 4 2 = Finite 1 \<and>
   row_sum contradicted_system [Finite 1, Finite 1, Finite 1, Finite 1] 4 3 = Finite 1 \<and>
   row_sum contradicted_system [Finite 1, Finite 1, Finite 1, Finite 1] 4 4 = Finite 1 \<and>
   row_sum contradicted_system [Finite 1, Finite 1, Finite 1, Finite 1] 4 1 \<noteq> Finite 5 \<and>
   Solve (finite_matrix 4 4 [[1, 0, 0, 0], [1, 1, 0, 0], [0, 0, 1, 0], [0, 0, 0, 1]])
     [Finite 1, Finite 2, Finite 1, Finite 1] magnitude_zero
     = Inr [Finite 1, Finite 1, Finite 1, Finite 1] \<and>
   is_diagonal_nonzero contradicted_system magnitude_zero \<and>
   Solve contradicted_system [Finite 2, Finite 5, Finite 1, Finite 1, Finite 1] magnitude_zero
     = Inr [] \<and>
   \<not> fge (ErrorEstimate contradicted_system [Finite 2, Finite 5, Finite 1, Finite 1, Finite 1] [])
          (Finite 0)"
  by code_simp

text \<open>
  A returned solution does not make the estimate a number either: with the unit
  vectors as rows 0 to 3 and \<open>[2\<^sup>1\<^sup>6\<^sup>3\<^sup>8\<^sup>3, 2\<^sup>1\<^sup>6\<^sup>3\<^sup>8\<^sup>3, 0, 0]\<close> as row 4, \<open>Solve\<close> returns
  \<open>[2, -2, 0, 0]\<close>, and the sum of row 4 is \<open>\<infinity> + (-\<infinity>)\<close>.
\<close>

lemma overdetermined_ErrorEstimate_NaN:
  "Solve (finite_matrix 5 4 [[1, 0, 0, 0], [0, 1, 0, 0], [0, 0, 1, 0], [0, 0, 0, 1],
            [pow2 max_exponent, pow2 max_exponent, 0, 0]])
     [Finite 2, Finite (- 2), Finite 0, Finite 0, Finite 0] magnitude_zero
     = Inr [Finite 2, Finite (- 2), Finite 0, Finite 0] \<and>
   ErrorEstimate (finite_matrix 5 4 [[1, 0, 0, 0], [0, 1, 0, 0], [0, 0, 1, 0], [0, 0, 0, 1],
            [pow2 max_exponent, pow2 max_exponent, 0, 0]])
     [Finite 2, Finite (- 2), Finite 0, Finite 0, Finite 0]
     [Finite 2, Finite (- 2), Finite 0, Finite 0] = NaN"
proof -
  let ?m = "finite_matrix 5 4 [[1, 0, 0, 0], [0, 1, 0, 0], [0, 0, 1, 0], [0, 0, 0, 1],
            [pow2 max_exponent, pow2 max_exponent, 0, 0]]"
  let ?e = "[Finite 2, Finite (- 2), Finite 0, Finite 0, Finite 0]"
  have d: "is_diagonal_nonzero ?m magnitude_zero"
    by (simp add: is_diagonal_nonzero_def is_valid_def finite_matrix_def magnitude_zero_def
          eval_nat_numeral)
  have l: "length ?e = n_rows ?m" by simp
  have lead: "leading_rows ?m = finite_matrix 4 4 [[1, 0, 0, 0], [0, 1, 0, 0], [0, 0, 1, 0], [0, 0, 0, 1]]"
    by (simp add: leading_rows_def finite_matrix_def)
  have sq: "Solve (finite_matrix 4 4 [[1, 0, 0, 0], [0, 1, 0, 0], [0, 0, 1, 0], [0, 0, 0, 1]])
              [Finite 2, Finite (- 2), Finite 0, Finite 0] magnitude_zero
            = Inr [Finite 2, Finite (- 2), Finite 0, Finite 0]"
    by code_simp
  have s: "Solve ?m ?e magnitude_zero = Inr [Finite 2, Finite (- 2), Finite 0, Finite 0]"
    using Solve_leading(1)[OF d l] lead sq by simp
  have rep: "round_real 2 = Finite 2" "round_real (- 2) = Finite (- 2)"
    by code_simp+
  have est: "ErrorEstimate ?m ?e [Finite 2, Finite (- 2), Finite 0, Finite 0] = NaN"
    using round_real_twice_largest_power rep
    by (simp add: ErrorEstimate_def size_of_def is_valid_def finite_matrix_def row_sum_def
          at_const_def fsub_def eval_nat_numeral)
  from s est show ?thesis by simp
qed

end
